theory Spec2Isabelle
  imports Complex_Main "HOL-Library.AList"
begin

section \<open>Numbers of the host language\<close>

text \<open>
  The program computes with JavaScript numbers, that is with IEEE 754 binary64 values. A
  number is a finite value, one of the two infinities or the not-a-number value \<open>NaN\<close>. A
  finite value is held as the rational it denotes, and every arithmetic operation rounds its
  exact result to the nearest binary64 value, ties to the even significand, overflowing to
  an infinity and underflowing through the subnormal values to zero (\<open>round64\<close> below).

  One zero stands for both \<open>0\<close> and \<open>-0\<close>: the strict comparisons of the source do not tell
  them apart, the only division of the source is guarded against both, and no other
  operation of the evaluator separates them.
\<close>

datatype number = Fin rat | PInf | NInf | NaN

subsection \<open>Rounding to binary64\<close>

text \<open>\<open>ilog2 n\<close> is the position of the leading bit of \<open>n\<close>, for \<open>1 \<le> n\<close>.\<close>

function ilog2 :: "int \<Rightarrow> int" where
  "ilog2 n = (if n < 2 then 0 else 1 + ilog2 (n div 2))"
  by pat_completeness auto
termination
  by (relation "measure nat") auto

declare ilog2.simps [simp del]

text \<open>\<open>pow2 e\<close> is \<open>2\<^sup>e\<close> for \<open>0 \<le> e\<close> and \<open>1\<close> below.\<close>

definition pow2 :: "int \<Rightarrow> int" where
  "pow2 e = 2 ^ nat e"

text \<open>The exponent \<open>e\<close> with \<open>2\<^sup>e \<le> p / q < 2\<^sup>e\<^sup>+\<^sup>1\<close>, for positive \<open>p\<close> and \<open>q\<close>.\<close>

definition floorLog2 :: "int \<Rightarrow> int \<Rightarrow> int" where
  "floorLog2 p q =
     (let e = ilog2 p - ilog2 q
      in if q * pow2 e \<le> p * pow2 (- e) then e else e - 1)"

text \<open>The integer nearest to \<open>n / d\<close> for \<open>0 < d\<close>, the even one of two nearest.\<close>

definition roundHalfEven :: "int \<Rightarrow> int \<Rightarrow> int" where
  "roundHalfEven n d =
     (let f = n div d; r = n mod d
      in if 2 * r < d then f else if d < 2 * r then f + 1 else if even f then f else f + 1)"

text \<open>
  The binary64 value nearest to \<open>p / q\<close> for \<open>0 < q\<close>. A value of exponent \<open>e\<close> is a multiple
  of \<open>2\<^sup>e\<^sup>-\<^sup>5\<^sup>2\<close> (53 significant bits); the exponent is at least \<open>-1022\<close>, which gives the
  subnormal values, and at most \<open>1023\<close>, beyond which the result is an infinity.
\<close>

definition roundQuotient :: "int \<Rightarrow> int \<Rightarrow> number" where
  "roundQuotient p q =
     (if p = 0 then Fin 0
      else
        (let e = max (floorLog2 \<bar>p\<bar> q) (- 1022)
         in if 1023 < e then (if 0 < p then PInf else NInf)
            else
              (let n = roundHalfEven (p * pow2 (52 - e)) (q * pow2 (e - 52))
               in if e = 1023 \<and> 2 ^ 53 \<le> \<bar>n\<bar> then (if 0 < p then PInf else NInf)
                  else Fin (of_int (n * pow2 (e - 52)) / of_int (pow2 (52 - e))))))"

definition round64 :: "rat \<Rightarrow> number" where
  "round64 x = (case quotient_of x of (p, q) \<Rightarrow> roundQuotient p q)"

subsection \<open>The arithmetic operators\<close>


fun jsadd :: "number \<Rightarrow> number \<Rightarrow> number" where
  "jsadd NaN _ = NaN"
| "jsadd _ NaN = NaN"
| "jsadd PInf NInf = NaN"
| "jsadd NInf PInf = NaN"
| "jsadd PInf _ = PInf"
| "jsadd _ PInf = PInf"
| "jsadd NInf _ = NInf"
| "jsadd _ NInf = NInf"
| "jsadd (Fin a) (Fin b) = round64 (a + b)"

fun jsneg :: "number \<Rightarrow> number" where
  "jsneg (Fin a) = Fin (- a)"
| "jsneg PInf = NInf"
| "jsneg NInf = PInf"
| "jsneg NaN = NaN"

definition jssub :: "number \<Rightarrow> number \<Rightarrow> number" where
  "jssub a b = jsadd a (jsneg b)"

text \<open>The sign of a number that is not \<open>NaN\<close>: \<open>-1\<close>, \<open>0\<close> or \<open>1\<close>.\<close>

fun jssign :: "number \<Rightarrow> rat" where
  "jssign (Fin a) = sgn a"
| "jssign PInf = 1"
| "jssign NInf = - 1"
| "jssign NaN = 0"

definition signed_inf :: "rat \<Rightarrow> number" where
  "signed_inf s = (if s = 0 then NaN else if 0 < s then PInf else NInf)"

fun jsmul :: "number \<Rightarrow> number \<Rightarrow> number" where
  "jsmul NaN _ = NaN"
| "jsmul _ NaN = NaN"
| "jsmul (Fin a) (Fin b) = round64 (a * b)"
| "jsmul a b = signed_inf (jssign a * jssign b)"

text \<open>
  Division by a zero divisor is never evaluated by the program (the call site tests the
  divisor first), so \<open>jsdiv\<close> gives \<open>NaN\<close> there only to be total.
\<close>

fun jsdiv :: "number \<Rightarrow> number \<Rightarrow> number" where
  "jsdiv NaN _ = NaN"
| "jsdiv _ NaN = NaN"
| "jsdiv (Fin a) (Fin b) = (if b = 0 then NaN else round64 (a / b))"
| "jsdiv (Fin a) _ = Fin 0"
| "jsdiv a (Fin b) = signed_inf (jssign a * sgn b)"
| "jsdiv _ _ = NaN"

subsection \<open>Strict comparison\<close>

text \<open>
  The strict comparisons \<open>x === y\<close> and \<open>x !== y\<close> on values of type
  \<open>number | undefined\<close> (\<open>None\<close> is \<open>undefined\<close>): \<open>NaN\<close> is equal to nothing, itself
  included.
\<close>

definition strict_eq :: "number option \<Rightarrow> number option \<Rightarrow> bool" where
  "strict_eq x y = (x = y \<and> x \<noteq> Some NaN)"

definition strict_neq :: "number option \<Rightarrow> number option \<Rightarrow> bool" where
  "strict_neq x y = (\<not> strict_eq x y)"

section \<open>Data model\<close>

datatype NodeType = INPUT | OUTPUT | MATH

datatype MathOperation = Add | Subtract | Multiply | Divide

text \<open>
  \<open>NodeData\<close>: every field is optional. \<open>val\<close> is the field \<open>value\<close> of the source (the
  current calculated value), \<open>onChange\<close> records whether the callback is attached.
\<close>

record NodeData =
  label :: "string option"
  val :: "number option"
  inputValue :: "number option"
  operation :: "MathOperation option"
  onChange :: "unit option"

text \<open>
  \<open>AppNode\<close>: \<open>nid\<close> is the field \<open>id\<close>, \<open>ntype\<close> the field \<open>type\<close> (\<open>None\<close> when it
  is absent or not one of the three node types: the evaluator treats all those alike).
\<close>

record AppNode =
  nid :: string
  ntype :: "NodeType option"
  position :: "number \<times> number"
  data :: NodeData

text \<open>A handle field of an edge is a string, \<open>null\<close> or absent.\<close>

datatype handle = Undefined | Null | Handle string

record AppEdge =
  eid :: string
  source :: string
  target :: string
  sourceHandle :: handle
  targetHandle :: handle
  animated :: "bool option"

section \<open>The evaluator \<open>calculateGraph\<close>\<close>

text \<open>
  \<open>nodeMap\<close> is a JavaScript \<open>Map\<close>: it iterates in insertion order, and setting a key
  that is present replaces the value in place. That is \<open>AList.update\<close> on an association
  list. Each entry is a fresh copy of the node and of its data, so the loop's assignment
  to \<open>node.data.value\<close> is an update of the entry.
\<close>

type_synonym NodeMap = "(string \<times> AppNode) list"

definition buildNodeMap :: "AppNode list \<Rightarrow> NodeMap" where
  "buildNodeMap nodes = foldl (\<lambda>m node. AList.update (nid node) node m) [] nodes"

text \<open>\<open>handleId ? e.targetHandle === handleId : true\<close>: the empty string is falsy too.\<close>

definition handleMatches :: "string option \<Rightarrow> AppEdge \<Rightarrow> bool" where
  "handleMatches handleId e =
     (case handleId of
        None \<Rightarrow> True
      | Some h \<Rightarrow> if h = [] then True else targetHandle e = Handle h)"

definition getSourceValue ::
  "NodeMap \<Rightarrow> AppEdge list \<Rightarrow> string \<Rightarrow> string option \<Rightarrow> number option" where
  "getSourceValue nodeMap edges targetNodeId handleId =
     (case find (\<lambda>e. target e = targetNodeId \<and> handleMatches handleId e) edges of
        None \<Rightarrow> None
      | Some edge \<Rightarrow>
          (case map_of nodeMap (source edge) of
             None \<Rightarrow> None
           | Some sourceNode \<Rightarrow>
               if ntype sourceNode = Some INPUT then inputValue (data sourceNode)
               else val (data sourceNode)))"

text \<open>The value a MATH node computes from two resolved operands (the \<open>switch\<close>).\<close>

definition applyOperation :: "MathOperation option \<Rightarrow> number \<Rightarrow> number \<Rightarrow> number option" where
  "applyOperation opn valA valB =
     (case opn of
        Some Add \<Rightarrow> Some (jsadd valA valB)
      | Some Subtract \<Rightarrow> Some (jssub valA valB)
      | Some Multiply \<Rightarrow> Some (jsmul valA valB)
      | Some Divide \<Rightarrow> Some (if valB \<noteq> Fin 0 then jsdiv valA valB else NaN)
      | None \<Rightarrow> None)"

text \<open>\<open>newValue\<close> as the loop body computes it for one node that is not an INPUT.\<close>

definition newValue :: "NodeMap \<Rightarrow> AppEdge list \<Rightarrow> AppNode \<Rightarrow> number option" where
  "newValue nodeMap edges node =
     (if ntype node = Some MATH then
        (case getSourceValue nodeMap edges (nid node) (Some ''a'') of
           None \<Rightarrow> None
         | Some valA \<Rightarrow>
             (case getSourceValue nodeMap edges (nid node) (Some ''b'') of
                None \<Rightarrow> None
              | Some valB \<Rightarrow> applyOperation (operation (data node)) valA valB))
      else if ntype node = Some OUTPUT then getSourceValue nodeMap edges (nid node) None
      else None)"

text \<open>
  One turn of the \<open>for\<close> loop, on the entry with key \<open>k\<close>; the state is the map and the
  flag \<open>changed\<close>.
\<close>

definition visit :: "AppEdge list \<Rightarrow> NodeMap \<times> bool \<Rightarrow> string \<Rightarrow> NodeMap \<times> bool" where
  "visit edges st k =
     (case map_of (fst st) k of
        None \<Rightarrow> st
      | Some node \<Rightarrow>
          if ntype node = Some INPUT then st
          else
            (let nv = newValue (fst st) edges node in
             if strict_neq (val (data node)) nv
             then (AList.update k (node\<lparr>data := (data node)\<lparr>val := nv\<rparr>\<rparr>) (fst st), True)
             else st))"

text \<open>One pass of the \<open>while\<close> body: \<open>changed = false\<close>, then every entry in order.\<close>

definition pass :: "AppEdge list \<Rightarrow> NodeMap \<Rightarrow> NodeMap \<times> bool" where
  "pass edges nodeMap = foldl (visit edges) (nodeMap, False) (map fst nodeMap)"

text \<open>
  The \<open>while\<close> loop, returning the map together with the final \<open>changed\<close> and
  \<open>iterations\<close>.
\<close>

function loop :: "AppEdge list \<Rightarrow> NodeMap \<Rightarrow> bool \<Rightarrow> nat \<Rightarrow> NodeMap \<times> bool \<times> nat" where
  "loop edges nodeMap changed iterations =
     (if changed \<and> iterations < 50
      then (case pass edges nodeMap of
              (nodeMap', changed') \<Rightarrow> loop edges nodeMap' changed' (iterations + 1))
      else (nodeMap, changed, iterations))"
  by pat_completeness auto
termination
  by (relation "measure (\<lambda>(edges, nodeMap, changed, iterations). 50 - iterations)") auto

declare loop.simps [simp del]

definition runLoop :: "AppNode list \<Rightarrow> AppEdge list \<Rightarrow> NodeMap \<times> bool \<times> nat" where
  "runLoop nodes edges = loop edges (buildNodeMap nodes) True 0"

definition calculateGraph :: "AppNode list \<Rightarrow> AppEdge list \<Rightarrow> AppNode list" where
  "calculateGraph nodes edges = map snd (fst (runLoop nodes edges))"

section \<open>Reading the evaluator's maps\<close>

text \<open>\<open>nodeMap.get(k)?.data.value\<close>, to read a computed value off a map.\<close>

definition valueAt :: "NodeMap \<Rightarrow> string \<Rightarrow> number option" where
  "valueAt nodeMap k = (case map_of nodeMap k of None \<Rightarrow> None | Some node \<Rightarrow> val (data node))"

text \<open>
  \<open>r\<close> is \<open>n\<close> with at most the computed value rewritten: every other field is as in
  \<open>n\<close>, and the computed value too when \<open>n\<close> is an INPUT node.
\<close>

definition recomputed :: "AppNode \<Rightarrow> AppNode \<Rightarrow> bool" where
  "recomputed n r =
     (nid r = nid n \<and> ntype r = ntype n \<and> position r = position n \<and>
      label (data r) = label (data n) \<and> inputValue (data r) = inputValue (data n) \<and>
      operation (data r) = operation (data n) \<and> onChange (data r) = onChange (data n) \<and>
      (if ntype n = Some INPUT then val (data r) = val (data n) else True))"

text \<open>An OUTPUT node that no edge points at.\<close>

definition unfed :: "AppEdge list \<Rightarrow> AppNode \<Rightarrow> bool" where
  "unfed edges node = (ntype node = Some OUTPUT \<and> (\<forall>e\<in>set edges. target e \<noteq> nid node))"

text \<open>Such a node is settled when its computed value is unresolved.\<close>

definition settled :: "AppEdge list \<Rightarrow> AppNode \<Rightarrow> bool" where
  "settled edges node = (unfed edges node \<longrightarrow> val (data node) = None)"

text \<open>What \<open>getSourceValue\<close> reads off the source node with id \<open>s\<close>.\<close>

definition srcval :: "NodeMap \<Rightarrow> string \<Rightarrow> number option" where
  "srcval m s =
     (case map_of m s of
        None \<Rightarrow> None
      | Some sourceNode \<Rightarrow>
          if ntype sourceNode = Some INPUT then inputValue (data sourceNode)
          else val (data sourceNode))"

text \<open>The entry with key \<open>k\<close> holds the value the loop would assign to it.\<close>

definition fixedAt :: "AppEdge list \<Rightarrow> NodeMap \<Rightarrow> string \<Rightarrow> bool" where
  "fixedAt edges m k =
     (case map_of m k of
        None \<Rightarrow> True
      | Some node \<Rightarrow> ntype node = Some INPUT \<or> val (data node) = newValue m edges node)"

text \<open>Every entry is filed under its node's id.\<close>

definition keyed :: "NodeMap \<Rightarrow> bool" where
  "keyed m = list_all (\<lambda>(k, node). nid node = k) m"


text \<open>
  A directed path of the graph, as the list of the node ids it passes: consecutive ids are
  joined by an edge. That every path has at most \<open>L\<close> nodes says that the graph is
  acyclic and that its longest path has at most \<open>L\<close> nodes.
\<close>

fun isPath :: "AppEdge list \<Rightarrow> string list \<Rightarrow> bool" where
  "isPath edges [] = True"
| "isPath edges [x] = True"
| "isPath edges (x # y # p) =
     (list_ex (\<lambda>e. source e = x \<and> target e = y) edges \<and> isPath edges (y # p))"

section \<open>Serialisation\<close>

text \<open>
  What \<open>JSON.stringify\<close> writes, as a tree: writing a tree out as text is injective, so
  two texts are equal exactly when the trees are. A field that is \<open>undefined\<close> or a
  function is left out, and \<open>NaN\<close> and the infinities are written as \<open>null\<close>. The keys
  are taken in the order of the interface declarations.
\<close>

datatype json = JNull | JBool bool | JNum rat | JStr string | JArr "json list"
  | JObj "(string \<times> json) list"

fun numberJSON :: "number \<Rightarrow> json" where
  "numberJSON (Fin r) = JNum r"
| "numberJSON _ = JNull"

definition field :: "string \<Rightarrow> ('a \<Rightarrow> json) \<Rightarrow> 'a option \<Rightarrow> (string \<times> json) list" where
  "field k f v = (case v of None \<Rightarrow> [] | Some x \<Rightarrow> [(k, f x)])"

fun operationJSON :: "MathOperation \<Rightarrow> json" where
  "operationJSON Add = JStr ''add''"
| "operationJSON Subtract = JStr ''subtract''"
| "operationJSON Multiply = JStr ''multiply''"
| "operationJSON Divide = JStr ''divide''"

fun typeJSON :: "NodeType \<Rightarrow> json" where
  "typeJSON INPUT = JStr ''inputNode''"
| "typeJSON OUTPUT = JStr ''outputNode''"
| "typeJSON MATH = JStr ''mathNode''"

fun handleJSON :: "string \<Rightarrow> handle \<Rightarrow> (string \<times> json) list" where
  "handleJSON k Undefined = []"
| "handleJSON k Null = [(k, JNull)]"
| "handleJSON k (Handle h) = [(k, JStr h)]"

definition dataJSON :: "NodeData \<Rightarrow> json" where
  "dataJSON d =
     JObj (field ''label'' JStr (label d) @ field ''value'' numberJSON (val d) @
           field ''inputValue'' numberJSON (inputValue d) @
           field ''operation'' operationJSON (operation d))"

definition nodeJSON :: "AppNode \<Rightarrow> json" where
  "nodeJSON n =
     JObj ([(''id'', JStr (nid n))] @ field ''type'' typeJSON (ntype n) @
           [(''position'',
             JObj [(''x'', numberJSON (fst (position n))), (''y'', numberJSON (snd (position n)))]),
            (''data'', dataJSON (data n))])"

definition edgeJSON :: "AppEdge \<Rightarrow> json" where
  "edgeJSON e =
     JObj ([(''id'', JStr (eid e)), (''source'', JStr (source e)), (''target'', JStr (target e))] @
           handleJSON ''sourceHandle'' (sourceHandle e) @
           handleJSON ''targetHandle'' (targetHandle e) @ field ''animated'' JBool (animated e))"

section \<open>The history manager\<close>

text \<open>
  A history entry \<open>{nodes, edges}\<close> and the history state \<open>{past, future}\<close>. The entry
  type is a parameter: an entry holds what the application hands over, the node and edge
  arrays as values or, in the store model below, as references.
\<close>

record 's History =
  past :: "'s list"
  future :: "'s list"

text \<open>\<open>xs.slice(-n)\<close>: the last \<open>n\<close> elements, all of them when there are fewer.\<close>

definition sliceLast :: "nat \<Rightarrow> 'a list \<Rightarrow> 'a list" where
  "sliceLast n xs = drop (length xs - n) xs"

text \<open>
  \<open>takeSnapshot\<close>, the function given to \<open>setHistory\<close>. \<open>stringify s\<close> is the pair
  \<open>(JSON.stringify(s.nodes), JSON.stringify(s.edges))\<close>, \<open>current\<close> the entry
  \<open>{nodes: currentNodes, edges: currentEdges}\<close>.
\<close>

definition takeSnapshot :: "('s \<Rightarrow> json \<times> json) \<Rightarrow> 's \<Rightarrow> 's History \<Rightarrow> 's History" where
  "takeSnapshot stringify current prev =
     (if past prev \<noteq> [] \<and> stringify (last (past prev)) = stringify current then prev
      else \<lparr>past = sliceLast 20 (past prev) @ [current], future = []\<rparr>)"

text \<open>
  \<open>undo\<close> and \<open>redo\<close> on the pair of the live graph and the history; the result is the
  new pair (\<open>setNodes\<close> and \<open>setEdges\<close> replace the live graph).
\<close>

definition undo :: "'s \<times> 's History \<Rightarrow> 's \<times> 's History" where
  "undo st =
     (case st of (current, prev) \<Rightarrow>
        if length (past prev) = 0 then st
        else (case rev (past prev) of
                [] \<Rightarrow> st
              | stateToRestore # _ \<Rightarrow>
                  (stateToRestore,
                   \<lparr>past = butlast (past prev), future = current # future prev\<rparr>)))"

definition redo :: "'s \<times> 's History \<Rightarrow> 's \<times> 's History" where
  "redo st =
     (case st of (current, prev) \<Rightarrow>
        if length (future prev) = 0 then st
        else (case future prev of
                [] \<Rightarrow> st
              | stateToRestore # newFuture \<Rightarrow>
                  (stateToRestore, \<lparr>past = past prev @ [current], future = newFuture\<rparr>)))"

text \<open>A history entry that holds the arrays as values, and its serialisation.\<close>

record Snapshot =
  snapNodes :: "AppNode list"
  snapEdges :: "AppEdge list"

definition stringifySnapshot :: "Snapshot \<Rightarrow> json \<times> json" where
  "stringifySnapshot s = (JArr (map nodeJSON (snapNodes s)), JArr (map edgeJSON (snapEdges s)))"

definition emptyHistory :: "'s History" where
  "emptyHistory = \<lparr>past = [], future = []\<rparr>"

section \<open>Node objects in a store\<close>

text \<open>
  Where the source shares node objects between arrays and assigns to their fields, the
  objects live in a store: an address is an index into the list of all node objects, and
  a new object is appended. An array of nodes is a list of addresses. A node's \<open>data\<close>
  object is kept inside the node object: the source never shares one \<open>data\<close> object
  between two nodes, it replaces \<open>node.data\<close> by a fresh object or assigns to the
  \<open>data\<close> of a node object it has just made. Edge objects are never assigned to and
  stay values.
\<close>

type_synonym addr = nat

type_synonym store = "AppNode list"

text \<open>A history entry \<open>{nodes: currentNodes, edges: currentEdges}\<close>: it holds the arrays
  it is given, not copies of them.\<close>

record RefSnapshot =
  refNodes :: "addr list"
  refEdges :: "AppEdge list"

text \<open>What an entry shows when its nodes are read in a store.\<close>

definition contents :: "store \<Rightarrow> RefSnapshot \<Rightarrow> Snapshot" where
  "contents st s = \<lparr>snapNodes = map ((!) st) (refNodes s), snapEdges = refEdges s\<rparr>"

definition stringifyRef :: "store \<Rightarrow> RefSnapshot \<Rightarrow> json \<times> json" where
  "stringifyRef st s = stringifySnapshot (contents st s)"

text \<open>The state of the \<open>Flow\<close> component: the node objects, the live arrays
  (\<open>nodesRef.current\<close>, \<open>edgesRef.current\<close>) and the history.\<close>

record Flow =
  objects :: store
  liveNodes :: "addr list"
  liveEdges :: "AppEdge list"
  history :: "RefSnapshot History"

definition currentGraph :: "Flow \<Rightarrow> RefSnapshot" where
  "currentGraph f = \<lparr>refNodes = liveNodes f, refEdges = liveEdges f\<rparr>"

definition takeSnapshotFlow :: "Flow \<Rightarrow> Flow" where
  "takeSnapshotFlow f =
     f\<lparr>history := takeSnapshot (stringifyRef (objects f)) (currentGraph f) (history f)\<rparr>"

definition undoFlow :: "Flow \<Rightarrow> Flow" where
  "undoFlow f =
     (case undo (currentGraph f, history f) of
        (s, h) \<Rightarrow> f\<lparr>liveNodes := refNodes s, liveEdges := refEdges s, history := h\<rparr>)"

definition redoFlow :: "Flow \<Rightarrow> Flow" where
  "redoFlow f =
     (case redo (currentGraph f, history f) of
        (s, h) \<Rightarrow> f\<lparr>liveNodes := refNodes s, liveEdges := refEdges s, history := h\<rparr>)"

text \<open>
  \<open>updateNodeValue\<close>: after the snapshot, \<open>nds.map\<close> visits every live node object and
  assigns a new \<open>data\<close> to the one with the given id; the array it returns holds the same
  objects.
\<close>

definition assignInputValue :: "string \<Rightarrow> number \<Rightarrow> store \<Rightarrow> addr \<Rightarrow> store" where
  "assignInputValue i v st a =
     (if nid (st ! a) = i
      then st[a := (st ! a)\<lparr>data := (data (st ! a))\<lparr>inputValue := Some v\<rparr>\<rparr>]
      else st)"

definition updateNodeValue :: "string \<Rightarrow> number \<Rightarrow> Flow \<Rightarrow> Flow" where
  "updateNodeValue i v f =
     (let f' = takeSnapshotFlow f
      in f'\<lparr>objects := foldl (\<lambda>st a. assignInputValue i v st a) (objects f') (liveNodes f')\<rparr>)"

text \<open>\<open>deleteNode\<close>: after the snapshot, both arrays are filtered into new arrays.\<close>

definition deleteNode :: "string \<Rightarrow> Flow \<Rightarrow> Flow" where
  "deleteNode i f =
     (let f' = takeSnapshotFlow f
      in f'\<lparr>liveNodes := filter (\<lambda>a. nid (objects f' ! a) \<noteq> i) (liveNodes f'),
            liveEdges := filter (\<lambda>e. source e \<noteq> i \<and> target e \<noteq> i) (liveEdges f')\<rparr>)"

definition archived :: "Flow \<Rightarrow> Snapshot list" where
  "archived f = map (contents (objects f)) (past (history f) @ future (history f))"

section \<open>The evaluator on node objects\<close>

text \<open>
  \<open>calculateGraph\<close> once more, with its argument an array of node objects in the store.
  \<open>nodeMap\<close> maps an id to the address of the copy \<open>{...node, data: {...node.data}}\<close>,
  a new object; \<open>getSourceValue\<close> reads the objects that \<open>nodeMap\<close> points to, and the
  loop assigns \<open>node.data.value\<close> in the store.
\<close>

type_synonym RefMap = "(string \<times> addr) list"

definition copyNode :: "store \<times> RefMap \<Rightarrow> addr \<Rightarrow> store \<times> RefMap" where
  "copyNode sm r =
     (case sm of (st, nodeMap) \<Rightarrow>
        (st @ [st ! r], AList.update (nid (st ! r)) (length st) nodeMap))"

definition buildNodeMapRef :: "store \<Rightarrow> addr list \<Rightarrow> store \<times> RefMap" where
  "buildNodeMapRef st refs = foldl copyNode (st, []) refs"

text \<open>The map from ids to the objects as they are in the store.\<close>

definition deref :: "store \<Rightarrow> RefMap \<Rightarrow> NodeMap" where
  "deref st nodeMap = map (\<lambda>(k, a). (k, st ! a)) nodeMap"

definition visitRef :: "AppEdge list \<Rightarrow> RefMap \<Rightarrow> store \<times> bool \<Rightarrow> addr \<Rightarrow> store \<times> bool" where
  "visitRef edges nodeMap sc a =
     (case sc of (st, changed) \<Rightarrow>
        (let node = st ! a in
         if ntype node = Some INPUT then sc
         else
           (let nv = newValue (deref st nodeMap) edges node in
            if strict_neq (val (data node)) nv
            then (st[a := node\<lparr>data := (data node)\<lparr>val := nv\<rparr>\<rparr>], True)
            else sc)))"

definition passRef :: "AppEdge list \<Rightarrow> RefMap \<Rightarrow> store \<Rightarrow> store \<times> bool" where
  "passRef edges nodeMap st = foldl (visitRef edges nodeMap) (st, False) (map snd nodeMap)"

function loopRef :: "AppEdge list \<Rightarrow> RefMap \<Rightarrow> store \<Rightarrow> bool \<Rightarrow> nat \<Rightarrow> store \<times> bool \<times> nat" where
  "loopRef edges nodeMap st changed iterations =
     (if changed \<and> iterations < 50
      then (case passRef edges nodeMap st of
              (st', changed') \<Rightarrow> loopRef edges nodeMap st' changed' (iterations + 1))
      else (st, changed, iterations))"
  by pat_completeness auto
termination
  by (relation "measure (\<lambda>(edges, nodeMap, st, changed, iterations). 50 - iterations)") auto

declare loopRef.simps [simp del]

text \<open>The result is the new store and the array \<open>Array.from(nodeMap.values())\<close>.\<close>

definition calculateGraphRef :: "store \<Rightarrow> addr list \<Rightarrow> AppEdge list \<Rightarrow> store \<times> addr list" where
  "calculateGraphRef st refs edges =
     (case buildNodeMapRef st refs of
        (st0, nodeMap) \<Rightarrow>
          (case loopRef edges nodeMap st0 True 0 of
             (st', changed, iterations) \<Rightarrow> (st', map snd nodeMap)))"

text \<open>The addresses of a map are distinct, as its keys are, and lie in the store at or
  above \<open>base\<close>.\<close>

definition wfRefMap :: "nat \<Rightarrow> store \<Rightarrow> RefMap \<Rightarrow> bool" where
  "wfRefMap base st nm =
     (distinct (map fst nm) \<and> distinct (map snd nm) \<and>
      list_all (\<lambda>a. base \<le> a \<and> a < length st) (map snd nm))"

section \<open>The effect that evaluates the live graph\<close>

text \<open>
  The effect of the \<open>Flow\<close> component that runs after a render in which the edges, the
  entered values or the operations have changed: it evaluates the live graph and, when
  some computed value differs (\<open>hasChanges\<close>), makes the array of copies that
  \<open>calculateGraph\<close> returns the live array; otherwise the live array stays and the copies
  are dropped.
\<close>

definition hasChanges :: "store \<Rightarrow> addr list \<Rightarrow> addr list \<Rightarrow> bool" where
  "hasChanges st nds calculatedNodes =
     list_ex (\<lambda>n. case find (\<lambda>cn. nid (st ! cn) = nid (st ! n)) calculatedNodes of
                     None \<Rightarrow> False
                   | Some calculated \<Rightarrow>
                       strict_neq (val (data (st ! calculated))) (val (data (st ! n)))) nds"

definition evaluateEffect :: "Flow \<Rightarrow> Flow" where
  "evaluateEffect f =
     (case calculateGraphRef (objects f) (liveNodes f) (liveEdges f) of
        (st, calculatedNodes) \<Rightarrow>
          if hasChanges st (liveNodes f) calculatedNodes
          then f\<lparr>objects := st, liveNodes := calculatedNodes\<rparr>
          else f)"

text \<open>What the live graph shows.\<close>

definition liveGraph :: "Flow \<Rightarrow> Snapshot" where
  "liveGraph f = contents (objects f) (currentGraph f)"

text \<open>
  The events of the component: the history operations, the two mutations above, the
  effect, and \<open>Change g\<close> for any other \<open>setNodes\<close>/\<open>setEdges\<close>, which may change the
  node objects and the live arrays in any way and does not touch the history.
\<close>

datatype event = TakeSnapshot | Undo | Redo | UpdateNodeValue string number | DeleteNode string
  | Evaluate | Change "Flow \<Rightarrow> Flow"

fun step :: "Flow \<Rightarrow> event \<Rightarrow> Flow" where
  "step f TakeSnapshot = takeSnapshotFlow f"
| "step f Undo = undoFlow f"
| "step f Redo = redoFlow f"
| "step f (UpdateNodeValue i v) = updateNodeValue i v f"
| "step f (DeleteNode i) = deleteNode i f"
| "step f Evaluate = evaluateEffect f"
| "step f (Change g) = (g f)\<lparr>history := history f\<rparr>"

section \<open>The graph the application starts with\<close>

text \<open>\<open>initialNodes\<close> and \<open>initialEdges\<close> of the application.\<close>

definition emptyData :: NodeData where
  "emptyData =
     \<lparr>label = None, val = None, inputValue = None, operation = None, onChange = None\<rparr>"

definition initialNodes :: "AppNode list" where
  "initialNodes =
     [\<lparr>nid = ''1'', ntype = Some INPUT, position = (Fin 50, Fin 50),
        data = emptyData\<lparr>inputValue := Some (Fin 10)\<rparr>\<rparr>,
      \<lparr>nid = ''2'', ntype = Some INPUT, position = (Fin 50, Fin 200),
        data = emptyData\<lparr>inputValue := Some (Fin 5)\<rparr>\<rparr>,
      \<lparr>nid = ''3'', ntype = Some MATH, position = (Fin 300, Fin 100),
        data = emptyData\<lparr>operation := Some Add\<rparr>\<rparr>,
      \<lparr>nid = ''4'', ntype = Some OUTPUT, position = (Fin 600, Fin 125),
        data = emptyData\<lparr>val := Some (Fin 15)\<rparr>\<rparr>]"

definition initialEdges :: "AppEdge list" where
  "initialEdges =
     [\<lparr>eid = ''e1-3a'', source = ''1'', target = ''3'', sourceHandle = Undefined,
        targetHandle = Handle ''a'', animated = Some True\<rparr>,
      \<lparr>eid = ''e2-3b'', source = ''2'', target = ''3'', sourceHandle = Undefined,
        targetHandle = Handle ''b'', animated = Some True\<rparr>,
      \<lparr>eid = ''e3-4'', source = ''3'', target = ''4'', sourceHandle = Undefined,
        targetHandle = Undefined, animated = Some True\<rparr>]"


text \<open>The component showing the initial graph, with an empty history.\<close>

definition initialFlow :: Flow where
  "initialFlow =
     \<lparr>objects = initialNodes, liveNodes = [0, 1, 2, 3], liveEdges = initialEdges,
        history = emptyHistory\<rparr>"

text \<open>The component once it has mounted: the effect has evaluated the initial graph.\<close>

definition startedFlow :: Flow where
  "startedFlow = evaluateEffect initialFlow"

section \<open>Graphs and histories used as examples\<close>

definition edgeTo :: "string \<Rightarrow> string \<Rightarrow> handle \<Rightarrow> AppEdge" where
  "edgeTo s t h =
     \<lparr>eid = s @ ''-'' @ t, source = s, target = t, sourceHandle = Null, targetHandle = h,
        animated = Some True\<rparr>"

text \<open>
  A graph with a division by zero: \<open>d = p / q\<close> with \<open>p = 4\<close> and \<open>q = 0\<close>,
  \<open>s = d + r\<close> with \<open>r = 3\<close>, and \<open>t = p / r\<close>.
\<close>

definition taintNodes :: "AppNode list" where
  "taintNodes =
     [\<lparr>nid = ''p'', ntype = Some INPUT, position = (Fin 0, Fin 0),
        data = emptyData\<lparr>inputValue := Some (Fin 4)\<rparr>\<rparr>,
      \<lparr>nid = ''q'', ntype = Some INPUT, position = (Fin 0, Fin 0),
        data = emptyData\<lparr>inputValue := Some (Fin 0)\<rparr>\<rparr>,
      \<lparr>nid = ''r'', ntype = Some INPUT, position = (Fin 0, Fin 0),
        data = emptyData\<lparr>inputValue := Some (Fin 3)\<rparr>\<rparr>,
      \<lparr>nid = ''d'', ntype = Some MATH, position = (Fin 0, Fin 0),
        data = emptyData\<lparr>operation := Some Divide\<rparr>\<rparr>,
      \<lparr>nid = ''s'', ntype = Some MATH, position = (Fin 0, Fin 0),
        data = emptyData\<lparr>operation := Some Add\<rparr>\<rparr>,
      \<lparr>nid = ''t'', ntype = Some MATH, position = (Fin 0, Fin 0),
        data = emptyData\<lparr>operation := Some Divide\<rparr>\<rparr>]"

definition taintEdges :: "AppEdge list" where
  "taintEdges =
     [edgeTo ''p'' ''d'' (Handle ''a''), edgeTo ''q'' ''d'' (Handle ''b''),
      edgeTo ''d'' ''s'' (Handle ''a''), edgeTo ''r'' ''s'' (Handle ''b''),
      edgeTo ''p'' ''t'' (Handle ''a''), edgeTo ''r'' ''t'' (Handle ''b'')]"

definition taintMap :: NodeMap where
  "taintMap = fst (runLoop taintNodes taintEdges)"

text \<open>A numbering of the nodes of the graph with the division by zero.\<close>

definition taintRank :: "string \<Rightarrow> nat" where
  "taintRank s = (if s = ''s'' then 3 else if s = ''d'' \<or> s = ''t'' then 2 else 1)"

text \<open>
  A graph with a cycle: the add node \<open>c\<close> adds \<open>u = 1\<close> to its own value, which is \<open>-50\<close>
  when the evaluation starts, and the divide node \<open>d\<close>, listed before it, divides \<open>p = 4\<close>
  by the value of \<open>c\<close>.
\<close>

definition counterNodes :: "AppNode list" where
  "counterNodes =
     [\<lparr>nid = ''p'', ntype = Some INPUT, position = (Fin 0, Fin 0),
        data = emptyData\<lparr>inputValue := Some (Fin 4)\<rparr>\<rparr>,
      \<lparr>nid = ''u'', ntype = Some INPUT, position = (Fin 0, Fin 0),
        data = emptyData\<lparr>inputValue := Some (Fin 1)\<rparr>\<rparr>,
      \<lparr>nid = ''d'', ntype = Some MATH, position = (Fin 0, Fin 0),
        data = emptyData\<lparr>operation := Some Divide\<rparr>\<rparr>,
      \<lparr>nid = ''c'', ntype = Some MATH, position = (Fin 0, Fin 0),
        data = emptyData\<lparr>operation := Some Add, val := Some (Fin (- 50))\<rparr>\<rparr>]"

definition counterEdges :: "AppEdge list" where
  "counterEdges =
     [edgeTo ''p'' ''d'' (Handle ''a''), edgeTo ''c'' ''d'' (Handle ''b''),
      edgeTo ''c'' ''c'' (Handle ''a''), edgeTo ''u'' ''c'' (Handle ''b'')]"

text \<open>An edge into node \<open>4\<close> whose source is not a node of the initial graph.\<close>

definition danglingEdge :: AppEdge where
  "danglingEdge = edgeTo ''9'' ''4'' Null"

text \<open>Graphs of one INPUT node each, told apart by the entered value \<open>i\<close>.\<close>

definition numbered :: "nat \<Rightarrow> Snapshot" where
  "numbered i =
     \<lparr>snapNodes = [\<lparr>nid = ''1'', ntype = Some INPUT, position = (Fin 50, Fin 50),
                     data = emptyData\<lparr>inputValue := Some (Fin (of_nat i))\<rparr>\<rparr>],
      snapEdges = []\<rparr>"






text \<open>
  The user enters \<open>v\<close> into node \<open>1\<close>, or deletes node \<open>3\<close>; the effect runs in the render
  that follows, since an entered value, or the edges, have changed.
\<close>

definition enterValue :: "nat \<Rightarrow> Flow \<Rightarrow> Flow" where
  "enterValue v f = evaluateEffect (updateNodeValue ''1'' (Fin (of_nat v)) f)"

definition deleteMath :: "Flow \<Rightarrow> Flow" where
  "deleteMath f = evaluateEffect (deleteNode ''3'' f)"

text \<open>Twenty-five mutations: node \<open>3\<close> is deleted, then \<open>11, \<dots>, 34\<close> are entered in turn.\<close>

definition twentyFiveMutations :: "(Flow \<Rightarrow> Flow) list" where
  "twentyFiveMutations = deleteMath # map enterValue [11..<35]"

text \<open>The states a component goes through, and the last of them.\<close>

fun visited :: "Flow \<Rightarrow> (Flow \<Rightarrow> Flow) list \<Rightarrow> Flow list" where
  "visited f [] = [f]"
| "visited f (g # gs) = f # visited (g f) gs"

definition perform :: "Flow \<Rightarrow> (Flow \<Rightarrow> Flow) list \<Rightarrow> Flow" where
  "perform f gs = foldl (\<lambda>f g. g f) f gs"

text \<open>The entered and the computed value of every node of a graph.\<close>

definition shown :: "Snapshot \<Rightarrow> (number option \<times> number option) list" where
  "shown s = map (\<lambda>n. (inputValue (data n), val (data n))) (snapNodes s)"


section \<open>Basic facts about the loop\<close>

subsection \<open>One turn of the inner loop\<close>

lemma visit_absent: "map_of (fst st) k = None \<Longrightarrow> visit edges st k = st"
  by (simp add: visit_def)

lemma visit_at:
  assumes "map_of (fst st) k = Some node"
  shows "map_of (fst (visit edges st k)) k =
           Some (if ntype node = Some INPUT then node
                 else node\<lparr>data := (data node)\<lparr>val := newValue (fst st) edges node\<rparr>\<rparr>)"
  using assms by (auto simp: visit_def Let_def strict_neq_def strict_eq_def update_conv')

lemma visit_other: "k' \<noteq> k \<Longrightarrow> map_of (fst (visit edges st k)) k' = map_of (fst st) k'"
  by (auto simp: visit_def Let_def update_conv' split: option.splits)

lemma visit_keys: "map fst (fst (visit edges st k)) = map fst (fst st)"
proof (cases "map_of (fst st) k")
  case None
  then show ?thesis by (simp add: visit_absent)
next
  case (Some node)
  then have "k \<in> fst ` set (fst st)" by (metis map_of_eq_None_iff option.distinct(1))
  with Some show ?thesis by (auto simp: visit_def Let_def update_keys)
qed

lemma foldl_visit_keys: "map fst (fst (foldl (visit edges) st ks)) = map fst (fst st)"
  by (induction ks arbitrary: st) (simp_all add: visit_keys)

lemma pass_keys: "map fst (fst (pass edges m)) = map fst m"
  by (simp add: pass_def foldl_visit_keys)

lemma loop_keys: "map fst (fst (loop edges m c i)) = map fst m"
proof (induction edges m c i rule: loop.induct)
  case (1 edges nodeMap changed iterations)
  show ?case
  proof (cases "changed \<and> iterations < 50")
    case True
    obtain m' c' where p: "pass edges nodeMap = (m', c')" by (cases "pass edges nodeMap")
    from "1.IH" [OF True p [symmetric]] have "map fst (fst (loop edges m' c' (iterations + 1))) = map fst m'" .
    moreover from p have "map fst m' = map fst nodeMap" using pass_keys [of edges nodeMap] by simp
    ultimately show ?thesis using True p by (subst loop.simps) simp
  next
    case False
    then show ?thesis by (subst loop.simps) auto
  qed
qed

lemma buildNodeMap_distinct_aux:
  "distinct (map fst m) \<Longrightarrow> distinct (map fst (foldl (\<lambda>m node. AList.update (nid node) node m) m nodes))"
  by (induction nodes arbitrary: m) (simp_all add: distinct_update)

lemma buildNodeMap_distinct: "distinct (map fst (buildNodeMap nodes))"
  by (simp add: buildNodeMap_def buildNodeMap_distinct_aux)

section \<open>Termination of the evaluator\<close>

lemma loop_iterations_le:
  "iterations \<le> 50 \<Longrightarrow> snd (snd (loop edges nodeMap changed iterations)) \<le> 50"
proof (induction edges nodeMap changed iterations rule: loop.induct)
  case (1 edges nodeMap changed iterations)
  show ?case
  proof (cases "changed \<and> iterations < 50")
    case True
    obtain m' c' where p: "pass edges nodeMap = (m', c')" by (cases "pass edges nodeMap")
    from True have "iterations + 1 \<le> 50" by simp
    from "1.IH" [OF True p [symmetric] this]
    have "snd (snd (loop edges m' c' (iterations + 1))) \<le> 50" .
    with True p show ?thesis by (subst loop.simps) simp
  next
    case False
    with "1.prems" show ?thesis by (subst loop.simps) auto
  qed
qed

text \<open>
  C7: for every input graph (cyclic ones included) \<open>calculateGraph\<close> returns a node
  collection, and its loop has made at most 50 passes when it returns. The loop is a total
  function (its termination is proved with the measure \<open>50 - iterations\<close>), so the triple
  below exists for every input.
\<close>

theorem calculateGraph_terminates_within_ceiling:
  "\<exists>nodeMap changed iterations.
     runLoop nodes edges = (nodeMap, changed, iterations) \<and> iterations \<le> 50 \<and>
     calculateGraph nodes edges = map snd nodeMap"
proof -
  obtain m c i where r: "runLoop nodes edges = (m, c, i)" by (cases "runLoop nodes edges")
  have "snd (snd (loop edges (buildNodeMap nodes) True 0)) \<le> 50"
    by (rule loop_iterations_le) simp
  with r have "i \<le> 50" by (simp add: runLoop_def)
  with r show ?thesis by (simp add: calculateGraph_def)
qed

section \<open>Operator semantics\<close>

text \<open>
  Finite arithmetic rounds: \<open>0.1 + 0.2\<close> is the binary64 value next above \<open>0.3\<close>, \<open>4 / 3\<close>
  is cut to 53 bits, \<open>2\<^sup>5\<^sup>3 + 1\<close> is a tie and goes to the even neighbour, a product
  beyond the largest value is \<open>Infinity\<close> and one below half the smallest value is \<open>0\<close>,
  which the guard of the division then meets. It never gives \<open>NaN\<close>.
\<close>

lemma round64_not_NaN: "round64 x \<noteq> NaN"
  by (auto simp: round64_def roundQuotient_def Let_def split: prod.splits)

lemma jsadd_rounds:
  "jsadd (Fin (3602879701896397 / 36028797018963968)) (Fin (3602879701896397 / 18014398509481984)) =
     Fin (1351079888211149 / 4503599627370496)"
  by code_simp

lemma jsdiv_rounds: "jsdiv (Fin 4) (Fin 3) = Fin (6004799503160661 / 4503599627370496)"
  by code_simp

lemma jsmul_overflows: "jsmul (Fin (of_int (2 ^ 540))) (Fin (of_int (2 ^ 540))) = PInf"
  by code_simp

lemma jsmul_underflows: "jsmul (Fin (1 / of_int (2 ^ 540))) (Fin (1 / of_int (2 ^ 540))) = Fin 0"
  by code_simp

lemma jsadd_ties_to_even:
  "jsadd (Fin 9007199254740992) (Fin 1) = Fin 9007199254740992 \<and>
   jsadd (Fin 9007199254740994) (Fin 1) = Fin 9007199254740996"
  by code_simp

lemma underflow_meets_guard:
  "applyOperation (Some Divide) (Fin 1)
     (jsmul (Fin (1 / of_int (2 ^ 540))) (Fin (1 / of_int (2 ^ 540)))) = Some NaN"
  by code_simp

lemma jsadd_NaN_right: "jsadd a NaN = NaN"
  by (cases a) simp_all

lemma valueAt_visit:
  assumes "map_of nodeMap k = Some node" and "ntype node \<noteq> Some INPUT"
  shows "valueAt (fst (visit edges (nodeMap, changed) k)) k = newValue nodeMap edges node"
  using visit_at [of "(nodeMap, changed)" k node edges] assms by (simp add: valueAt_def)

section \<open>Unresolved inputs\<close>

lemma map_of_Some_key: "map_of m k = Some n \<Longrightarrow> k \<in> set (map fst m)"
  by (metis map_of_eq_None_iff option.distinct(1) set_map)

lemma key_map_of: "k \<in> set (map fst m) \<Longrightarrow> \<exists>n. map_of m k = Some n"
  by (metis map_of_eq_None_iff not_None_eq set_map)

lemma loop_stop: "\<not> (c \<and> i < 50) \<Longrightarrow> loop edges m c i = (m, c, i)"
  by (subst loop.simps) auto

lemma loop_step:
  "c \<and> i < 50 \<Longrightarrow> pass edges m = (m', c') \<Longrightarrow> loop edges m c i = loop edges m' c' (i + 1)"
  by (subst loop.simps) simp

lemma getSourceValue_no_edge:
  assumes "\<forall>e\<in>set edges. \<not> (target e = t \<and> handleMatches h e)"
  shows "getSourceValue m edges t h = None"
proof -
  from assms have "find (\<lambda>e. target e = t \<and> handleMatches h e) edges = None"
    by (simp add: find_None_iff)
  then show ?thesis by (simp add: getSourceValue_def)
qed

lemma getSourceValue_missing_source:
  assumes "find (\<lambda>e. target e = t \<and> handleMatches h e) edges = Some e"
    and "map_of m (source e) = None"
  shows "getSourceValue m edges t h = None"
  using assms by (simp add: getSourceValue_def)

lemma newValue_unfed: "unfed edges node \<Longrightarrow> newValue m edges node = None"
  by (simp add: unfed_def newValue_def getSourceValue_no_edge)

lemma visit_settles:
  assumes "map_of (fst (visit edges st k)) k = Some node"
  shows "settled edges node"
proof (cases "map_of (fst st) k")
  case None
  with assms show ?thesis by (simp add: visit_absent)
next
  case (Some n0)
  from visit_at [OF Some, of edges] assms
  have eq: "node = (if ntype n0 = Some INPUT then n0
                else n0\<lparr>data := (data n0)\<lparr>val := newValue (fst st) edges n0\<rparr>\<rparr>)" by simp
  show ?thesis
  proof (cases "ntype n0 = Some INPUT")
    case True
    with eq show ?thesis by (simp add: settled_def unfed_def)
  next
    case False
    have "unfed edges node \<Longrightarrow> unfed edges n0" using eq False by (simp add: unfed_def)
    then show ?thesis using eq False newValue_unfed [of edges n0 "fst st"]
      by (auto simp: settled_def)
  qed
qed

lemma foldl_visit_settled:
  assumes "map_of (fst (foldl (visit edges) st ks)) k = Some node"
    and "k \<in> set ks \<or> (\<exists>n0. map_of (fst st) k = Some n0 \<and> settled edges n0)"
  shows "settled edges node"
  using assms
proof (induction ks arbitrary: st)
  case Nil
  from Nil(2) obtain n0 where "map_of (fst st) k = Some n0" and "settled edges n0" by auto
  with Nil(1) show ?case by simp
next
  case (Cons k0 ks)
  let ?st = "visit edges st k0"
  from Cons.prems(1) have res: "map_of (fst (foldl (visit edges) ?st ks)) k = Some node" by simp
  have "k \<in> set ks \<or> (\<exists>n0. map_of (fst ?st) k = Some n0 \<and> settled edges n0)"
  proof (cases "k \<in> set ks")
    case True
    then show ?thesis by (rule disjI1)
  next
    case False
    have "k \<in> set (map fst (fst (foldl (visit edges) ?st ks)))"
      using res by (rule map_of_Some_key)
    then have "k \<in> set (map fst (fst ?st))" by (simp only: foldl_visit_keys)
    then have "\<exists>n1. map_of (fst ?st) k = Some n1" by (rule key_map_of)
    then obtain n1 where n1: "map_of (fst ?st) k = Some n1" ..
    have "settled edges n1"
    proof (cases "k = k0")
      case True
      with n1 have "map_of (fst ?st) k0 = Some n1" by simp
      then show ?thesis by (rule visit_settles)
    next
      case neq: False
      with False Cons.prems(2) obtain n0 where n0: "map_of (fst st) k = Some n0" "settled edges n0"
        by auto
      from neq have "map_of (fst ?st) k = map_of (fst st) k" by (rule visit_other)
      with n0 n1 show ?thesis by simp
    qed
    with n1 show ?thesis by blast
  qed
  from Cons.IH [OF res this] show ?case .
qed

lemma pass_settled:
  assumes "map_of (fst (pass edges m)) k = Some node"
  shows "settled edges node"
proof -
  have "k \<in> set (map fst (fst (pass edges m)))"
    using assms by (rule map_of_Some_key)
  then have k: "k \<in> set (map fst m)" by (simp only: pass_keys)
  from assms
  have r: "map_of (fst (foldl (visit edges) (m, False) (map fst m))) k = Some node"
    by (simp add: pass_def)
  show ?thesis by (rule foldl_visit_settled [OF r disjI1 [OF k]])
qed

lemma loop_settled:
  assumes "(c \<and> i < 50) \<or> (\<forall>k n. map_of m k = Some n \<longrightarrow> settled edges n)"
    and "map_of (fst (loop edges m c i)) k = Some node"
  shows "settled edges node"
  using assms
proof (induction edges m c i rule: loop.induct)
  case (1 edges nodeMap changed iterations)
  show ?case
  proof (cases "changed \<and> iterations < 50")
    case True
    obtain m' c' where p: "pass edges nodeMap = (m', c')" by (cases "pass edges nodeMap")
    have all: "\<forall>k n. map_of m' k = Some n \<longrightarrow> settled edges n"
      using pass_settled [of edges nodeMap] p by simp
    from "1.prems"(2) loop_step [OF True p]
    have "map_of (fst (loop edges m' c' (iterations + 1))) k = Some node" by simp
    moreover from all
    have "(c' \<and> iterations + 1 < 50) \<or> (\<forall>k n. map_of m' k = Some n \<longrightarrow> settled edges n)"
      by (rule disjI2)
    ultimately show ?thesis using "1.IH" [OF True p [symmetric]] by simp
  next
    case False
    with "1.prems" loop_stop [OF False, of edges nodeMap] show ?thesis by auto
  qed
qed

text \<open>
  C6: value resolution gives \<open>undefined\<close> (never \<open>0\<close>; the model has no error branch, as
  the source has none) when no edge matches the target and port, and when the first
  matching edge names a source that is not in the node map; and every OUTPUT node of the
  result that no edge points at has an unresolved computed value.
\<close>

theorem missing_input_is_unresolved:
  "((\<forall>e\<in>set edges. \<not> (target e = t \<and> handleMatches h e)) \<longrightarrow>
      getSourceValue nodeMap edges t h = None) \<and>
   (\<forall>e. find (\<lambda>e. target e = t \<and> handleMatches h e) edges = Some e \<and>
        map_of nodeMap (source e) = None \<longrightarrow>
      getSourceValue nodeMap edges t h = None) \<and>
   (\<forall>node\<in>set (calculateGraph nodes edges).
      ntype node = Some OUTPUT \<and> (\<forall>e\<in>set edges. target e \<noteq> nid node) \<longrightarrow>
      val (data node) = None)"
proof (intro conjI allI impI ballI)
  assume "\<forall>e\<in>set edges. \<not> (target e = t \<and> handleMatches h e)"
  then show "getSourceValue nodeMap edges t h = None" by (rule getSourceValue_no_edge)
next
  fix e
  assume "find (\<lambda>e. target e = t \<and> handleMatches h e) edges = Some e \<and>
        map_of nodeMap (source e) = None"
  then show "getSourceValue nodeMap edges t h = None"
    using getSourceValue_missing_source by blast
next
  fix node
  assume mem: "node \<in> set (calculateGraph nodes edges)"
    and out: "ntype node = Some OUTPUT \<and> (\<forall>e\<in>set edges. target e \<noteq> nid node)"
  let ?m = "fst (loop edges (buildNodeMap nodes) True 0)"
  from mem obtain k where "(k, node) \<in> set ?m"
    by (auto simp: calculateGraph_def runLoop_def)
  moreover have "distinct (map fst ?m)" by (simp add: loop_keys buildNodeMap_distinct)
  ultimately have "map_of ?m k = Some node" by simp
  then have "settled edges node" by (intro loop_settled [of True 0]) auto
  with out show "val (data node) = None" by (simp add: settled_def unfed_def)
qed

theorem missing_input_is_unresolved_witness:
  "getSourceValue (buildNodeMap initialNodes) [] ''4'' None = None \<and>
   getSourceValue (buildNodeMap initialNodes) [danglingEdge] ''4'' None = None \<and>
   val (data (initialNodes ! 3)) = Some (Fin 15) \<and>
   val (data (calculateGraph initialNodes [] ! 3)) = None"
proof -
  have len: "length (calculateGraph initialNodes []) = 4" by code_simp
  have 0: "calculateGraph initialNodes [] ! 3 \<in> set (calculateGraph initialNodes [])"
    by (rule nth_mem) (simp add: len)
  have 1: "ntype (calculateGraph initialNodes [] ! 3) = Some OUTPUT"
    "find (\<lambda>e. target e = ''4'' \<and> handleMatches None e) [danglingEdge] = Some danglingEdge"
    "map_of (buildNodeMap initialNodes) (source danglingEdge) = None"
    "val (data (initialNodes ! 3)) = Some (Fin 15)"
    by code_simp+
  note A = missing_input_is_unresolved [of "[]" "''4''" None "buildNodeMap initialNodes" initialNodes]
  note B = missing_input_is_unresolved
    [of "[danglingEdge]" "''4''" None "buildNodeMap initialNodes" initialNodes]
  from conjunct1 [OF A]
  have 2: "getSourceValue (buildNodeMap initialNodes) [] ''4'' None = None" by simp
  from conjunct2 [OF conjunct2 [OF A]] 0 1(1)
  have 3: "val (data (calculateGraph initialNodes [] ! 3)) = None" by simp
  from conjunct1 [OF conjunct2 [OF B]]
  have "find (\<lambda>e. target e = ''4'' \<and> handleMatches None e) [danglingEdge] = Some danglingEdge \<and>
        map_of (buildNodeMap initialNodes) (source danglingEdge) = None \<longrightarrow>
        getSourceValue (buildNodeMap initialNodes) [danglingEdge] ''4'' None = None"
    by (rule spec)
  with 1(2,3)
  have 4: "getSourceValue (buildNodeMap initialNodes) [danglingEdge] ''4'' None = None"
    by (simp only: simp_thms)
  from 2 3 4 1(4) show ?thesis by (simp only: simp_thms)
qed

section \<open>The history manager: bound, snapshots, undo and redo\<close>

lemma length_sliceLast: "length (sliceLast n xs) \<le> n"
  by (simp add: sliceLast_def)

lemma takeSnapshot_push:
  "past h = [] \<or> stringify (last (past h)) \<noteq> stringify current \<Longrightarrow>
   takeSnapshot stringify current h = \<lparr>past = sliceLast 20 (past h) @ [current], future = []\<rparr>"
  by (auto simp: takeSnapshot_def)

lemma takeSnapshot_skip:
  "past h \<noteq> [] \<Longrightarrow> stringify (last (past h)) = stringify current \<Longrightarrow>
   takeSnapshot stringify current h = h"
  by (simp add: takeSnapshot_def)

lemma takeSnapshot_bound:
  assumes "length (past h) + length (future h) \<le> 21"
  shows "length (past (takeSnapshot stringify current h)) +
         length (future (takeSnapshot stringify current h)) \<le> 21"
proof (cases "past h \<noteq> [] \<and> stringify (last (past h)) = stringify current")
  case True
  with assms show ?thesis by (simp add: takeSnapshot_def)
next
  case False
  have "length (sliceLast 20 (past h)) \<le> 20" by (rule length_sliceLast)
  moreover from False have "takeSnapshot stringify current h =
      \<lparr>past = sliceLast 20 (past h) @ [current], future = []\<rparr>"
    by (intro takeSnapshot_push) auto
  ultimately show ?thesis by simp
qed

lemma undo_bound:
  assumes "length (past (snd st)) + length (future (snd st)) \<le> 21"
  shows "length (past (snd (undo st))) + length (future (snd (undo st))) \<le> 21"
proof (cases "past (snd st)" rule: rev_cases)
  case Nil
  with assms show ?thesis by (cases st) (simp add: undo_def)
next
  case (snoc ys y)
  with assms show ?thesis by (cases st) (simp add: undo_def)
qed

lemma redo_bound:
  assumes "length (past (snd st)) + length (future (snd st)) \<le> 21"
  shows "length (past (snd (redo st))) + length (future (snd (redo st))) \<le> 21"
  using assms by (cases st; cases "future (snd st)") (simp_all add: redo_def)

lemma sliceLast_snoc: "sliceLast 20 xs @ [x] = sliceLast 21 (xs @ [x])"
  by (simp add: sliceLast_def)

lemma sliceLast_sliceLast:
  assumes "n \<le> m"
  shows "sliceLast n (sliceLast m xs) = sliceLast n xs"
proof -
  from assms have "length xs - (length xs - m) - n + (length xs - m) = length xs - n" by arith
  then show ?thesis by (simp add: sliceLast_def)
qed

lemma snapshots_past:
  assumes "successively (\<lambda>a b. stringify a \<noteq> stringify b) (xs @ ss)"
  shows "past (foldl (\<lambda>h s. takeSnapshot stringify s h) \<lparr>past = sliceLast 21 xs, future = f\<rparr> ss) =
           sliceLast 21 (xs @ ss)"
  using assms
proof (induction ss arbitrary: xs f)
  case Nil
  then show ?case by simp
next
  case (Cons s ss)
  have push: "past \<lparr>past = sliceLast 21 xs, future = f\<rparr> = [] \<or>
        stringify (last (past \<lparr>past = sliceLast 21 xs, future = f\<rparr>)) \<noteq> stringify s"
  proof (cases xs rule: rev_cases)
    case Nil
    then show ?thesis by (simp add: sliceLast_def)
  next
    case (snoc ys y)
    from Cons.prems have "stringify y \<noteq> stringify s"
      by (simp add: snoc successively_append_iff)
    moreover have "last (sliceLast 21 (ys @ [y])) = y" by (simp add: sliceLast_def)
    ultimately show ?thesis by (simp add: snoc)
  qed
  have "sliceLast 20 (sliceLast 21 xs) @ [s] = sliceLast 21 (xs @ [s])"
    by (simp add: sliceLast_sliceLast sliceLast_snoc)
  with takeSnapshot_push [OF push]
  have "takeSnapshot stringify s \<lparr>past = sliceLast 21 xs, future = f\<rparr> =
          \<lparr>past = sliceLast 21 (xs @ [s]), future = []\<rparr>" by simp
  moreover from Cons.prems have "successively (\<lambda>a b. stringify a \<noteq> stringify b) ((xs @ [s]) @ ss)"
    by simp
  ultimately show ?case using Cons.IH [of "xs @ [s]" "[]"] by simp
qed

text \<open>
  C4 as stated says that \<open>future\<close> is empty after every call. When the current graph
  serialises like the top of \<open>past\<close> the call returns the history it was given, and a
  \<open>future\<close> that was not empty stays so.
\<close>

theorem takeSnapshot_keeps_future_counterexample:
  "takeSnapshot stringifySnapshot (numbered 0) \<lparr>past = [numbered 0], future = [numbered 1]\<rparr> =
     \<lparr>past = [numbered 0], future = [numbered 1]\<rparr> \<and>
   future (takeSnapshot stringifySnapshot (numbered 0)
     \<lparr>past = [numbered 0], future = [numbered 1]\<rparr>) \<noteq> []"
  by (simp add: takeSnapshot_def)

text \<open>
  C4, amended: when \<open>past\<close> is empty or the current graph serialises differently from
  the top of \<open>past\<close>, the call pushes the current graph (onto the last 20 entries) and
  clears \<open>future\<close>; otherwise it leaves the whole history, \<open>future\<close> included, as it
  was. A call that changes the history was given a graph that differs from the top of
  \<open>past\<close> (or an empty \<open>past\<close>).
\<close>

theorem takeSnapshot_pushes_or_keeps:
  "(past h = [] \<or> stringify (last (past h)) \<noteq> stringify current \<longrightarrow>
      takeSnapshot stringify current h =
        \<lparr>past = sliceLast 20 (past h) @ [current], future = []\<rparr>) \<and>
   (past h \<noteq> [] \<and> stringify (last (past h)) = stringify current \<longrightarrow>
      takeSnapshot stringify current h = h) \<and>
   (takeSnapshot stringify current h \<noteq> h \<longrightarrow> past h = [] \<or> last (past h) \<noteq> current)"
proof (intro conjI impI)
  assume "past h = [] \<or> stringify (last (past h)) \<noteq> stringify current"
  then show "takeSnapshot stringify current h =
        \<lparr>past = sliceLast 20 (past h) @ [current], future = []\<rparr>"
    by (rule takeSnapshot_push)
next
  assume "past h \<noteq> [] \<and> stringify (last (past h)) = stringify current"
  then show "takeSnapshot stringify current h = h" by (simp add: takeSnapshot_skip)
next
  assume "takeSnapshot stringify current h \<noteq> h"
  then show "past h = [] \<or> last (past h) \<noteq> current"
    by (auto simp: takeSnapshot_def split: if_splits)
qed

theorem takeSnapshot_pushes_or_keeps_witness:
  "takeSnapshot stringifySnapshot (numbered 1) \<lparr>past = [numbered 0], future = [numbered 2]\<rparr> =
     \<lparr>past = [numbered 0, numbered 1], future = []\<rparr> \<and>
   takeSnapshot stringifySnapshot (numbered 0) \<lparr>past = [numbered 0], future = [numbered 2]\<rparr> =
     \<lparr>past = [numbered 0], future = [numbered 2]\<rparr> \<and>
   numbered 0 \<noteq> numbered 1"
proof -
  note A = takeSnapshot_pushes_or_keeps
    [of "\<lparr>past = [numbered 0], future = [numbered 2]\<rparr>" stringifySnapshot "numbered 1"]
  note B = takeSnapshot_pushes_or_keeps
    [of "\<lparr>past = [numbered 0], future = [numbered 2]\<rparr>" stringifySnapshot "numbered 0"]
  have d: "stringifySnapshot (numbered 0) \<noteq> stringifySnapshot (numbered 1)" by code_simp
  from conjunct1 [OF A] d
  have 1: "takeSnapshot stringifySnapshot (numbered 1) \<lparr>past = [numbered 0], future = [numbered 2]\<rparr> =
     \<lparr>past = [numbered 0, numbered 1], future = []\<rparr>" by (simp add: sliceLast_def)
  from conjunct1 [OF conjunct2 [OF B]]
  have 2: "takeSnapshot stringifySnapshot (numbered 0) \<lparr>past = [numbered 0], future = [numbered 2]\<rparr> =
     \<lparr>past = [numbered 0], future = [numbered 2]\<rparr>" by simp
  from 1 have "takeSnapshot stringifySnapshot (numbered 1) \<lparr>past = [numbered 0], future = [numbered 2]\<rparr>
      \<noteq> \<lparr>past = [numbered 0], future = [numbered 2]\<rparr>" by simp
  with conjunct2 [OF conjunct2 [OF A]] have 3: "numbered 0 \<noteq> numbered 1" by simp
  from 1 2 3 show ?thesis by (simp only: simp_thms)
qed

lemma undo_nonempty:
  "undo (current, \<lparr>past = xs @ [x], future = f\<rparr>) = (x, \<lparr>past = xs, future = current # f\<rparr>)"
  by (simp add: undo_def)

lemma undo_empty: "past h = [] \<Longrightarrow> undo (current, h) = (current, h)"
  by (simp add: undo_def)

lemma redo_nonempty:
  "redo (current, \<lparr>past = xs, future = x # f\<rparr>) = (x, \<lparr>past = xs @ [current], future = f\<rparr>)"
  by (simp add: redo_def)

lemma redo_empty: "future h = [] \<Longrightarrow> redo (current, h) = (current, h)"
  by (simp add: redo_def)

lemma redo_undo:
  assumes "past h \<noteq> []"
  shows "redo (undo (current, h)) = (current, h)"
proof -
  from assms obtain xs x where "past h = xs @ [x]" by (cases "past h" rule: rev_cases) auto
  then have "h = \<lparr>past = xs @ [x], future = future h\<rparr>" by (cases h) simp
  then have "redo (undo (current, h)) = (current, \<lparr>past = xs @ [x], future = future h\<rparr>)"
    by (metis undo_nonempty redo_nonempty)
  with \<open>h = _\<close> show ?thesis by simp
qed

text \<open>
  \<open>undo\<close> and \<open>redo\<close> as functions of the entry that is live and the history, whatever an
  entry is: with \<open>S0\<close> pushed by a snapshot and \<open>S1\<close> live, \<open>undo\<close> makes the entry \<open>S0\<close>
  live and \<open>future\<close> the list \<open>[S1]\<close>, and \<open>redo\<close> after it makes \<open>S1\<close> live again, with
  \<open>S0\<close> back on top of \<open>past\<close>. What the entry \<open>S0\<close> shows by then is another matter when
  it holds node objects: see the section on undo after an edit.
\<close>

lemma undo_redo_entries:
  assumes "past h = [] \<or> stringify (last (past h)) \<noteq> stringify S0"
  shows "undo (S1, takeSnapshot stringify S0 h) =
           (S0, \<lparr>past = sliceLast 20 (past h), future = [S1]\<rparr>)"
    and "redo (undo (S1, takeSnapshot stringify S0 h)) =
           (S1, \<lparr>past = sliceLast 20 (past h) @ [S0], future = []\<rparr>)"
proof -
  from assms have t: "takeSnapshot stringify S0 h =
      \<lparr>past = sliceLast 20 (past h) @ [S0], future = []\<rparr>"
    by (rule takeSnapshot_push)
  show u: "undo (S1, takeSnapshot stringify S0 h) =
        (S0, \<lparr>past = sliceLast 20 (past h), future = [S1]\<rparr>)"
    by (simp only: t undo_nonempty)
  show "redo (undo (S1, takeSnapshot stringify S0 h)) =
        (S1, \<lparr>past = sliceLast 20 (past h) @ [S0], future = []\<rparr>)"
    by (simp only: u redo_nonempty)
qed

section \<open>Change detection and the taint value\<close>

text \<open>
  C2 says that a node whose value is \<open>NaN\<close> before a pass and is recomputed as \<open>NaN\<close>
  does not count as changed. The source compares with \<open>!==\<close>, under which \<open>NaN\<close>
  differs from itself: on the graph with a division by zero, a pass over the final map
  (whose values it leaves as they are) still reports a change, and the loop ends with
  \<open>changed\<close> true at 50 iterations.
\<close>

theorem nan_counts_as_change:
  "strict_neq (Some NaN) (Some NaN) \<and>
   valueAt taintMap ''d'' = Some NaN \<and>
   pass taintEdges taintMap = (taintMap, True) \<and>
   snd (runLoop taintNodes taintEdges) = (True, 50)"
  by code_simp

section \<open>The evaluator rewrites computed values only\<close>

lemma recomputed_refl: "recomputed n n"
  by (simp add: recomputed_def)

lemma recomputed_trans: "recomputed n r \<Longrightarrow> recomputed r s \<Longrightarrow> recomputed n s"
  by (simp add: recomputed_def split: if_splits)

lemma recomputed_update:
  "recomputed n r \<Longrightarrow> r = n\<lparr>data := (data n)\<lparr>val := val (data r)\<rparr>\<rparr>"
  by (simp add: recomputed_def)

lemma recomputed_input: "recomputed n r \<Longrightarrow> ntype n = Some INPUT \<Longrightarrow> r = n"
  by (simp add: recomputed_def)

lemma visit_recomputed:
  assumes "map_of (fst st) k' = Some n"
  shows "\<exists>r. map_of (fst (visit edges st k)) k' = Some r \<and> recomputed n r"
proof (cases "k' = k")
  case True
  with assms visit_at [of st k n edges] show ?thesis
    by (auto simp: recomputed_def)
next
  case False
  with assms show ?thesis by (simp add: visit_other recomputed_refl)
qed

lemma foldl_visit_recomputed:
  assumes "map_of (fst st) k = Some n"
  shows "\<exists>r. map_of (fst (foldl (visit edges) st ks)) k = Some r \<and> recomputed n r"
  using assms
proof (induction ks arbitrary: st n)
  case Nil
  then show ?case by (simp add: recomputed_refl)
next
  case (Cons k0 ks)
  from visit_recomputed [OF Cons.prems, of edges k0]
  obtain r where r: "map_of (fst (visit edges st k0)) k = Some r" "recomputed n r" by blast
  from Cons.IH [OF r(1)]
  obtain s where "map_of (fst (foldl (visit edges) (visit edges st k0) ks)) k = Some s"
    "recomputed r s" by blast
  with r(2) show ?case by (auto intro: recomputed_trans)
qed

lemma pass_recomputed:
  assumes "map_of m k = Some n"
  shows "\<exists>r. map_of (fst (pass edges m)) k = Some r \<and> recomputed n r"
  using foldl_visit_recomputed [of "(m, False)" k n edges "map fst m"] assms
  by (simp add: pass_def)

lemma loop_recomputed:
  assumes "map_of m k = Some n"
  shows "\<exists>r. map_of (fst (loop edges m c i)) k = Some r \<and> recomputed n r"
  using assms
proof (induction edges m c i arbitrary: n rule: loop.induct)
  case (1 edges nodeMap changed iterations)
  show ?case
  proof (cases "changed \<and> iterations < 50")
    case True
    obtain m' c' where p: "pass edges nodeMap = (m', c')" by (cases "pass edges nodeMap")
    from pass_recomputed [OF "1.prems", of edges] p
    obtain r where r: "map_of m' k = Some r" "recomputed n r" by auto
    from "1.IH" [OF True p [symmetric] r(1)]
    obtain s where "map_of (fst (loop edges m' c' (iterations + 1))) k = Some s" "recomputed r s"
      by blast
    with r(2) loop_step [OF True p] show ?thesis by (auto intro: recomputed_trans)
  next
    case False
    with "1.prems" loop_stop [OF False, of edges nodeMap] show ?thesis
      by (simp add: recomputed_refl)
  qed
qed

subsection \<open>The node map\<close>

lemma set_update_subset: "set (AList.update k v al) \<subseteq> insert (k, v) (set al)"
  by (induction al) auto

lemma foldl_update_entries:
  assumes "(k, n) \<in> set (foldl (\<lambda>m node. AList.update (nid node) node m) m0 nodes)"
  shows "(k, n) \<in> set m0 \<or> (n \<in> set nodes \<and> nid n = k)"
  using assms
proof (induction nodes arbitrary: m0)
  case Nil
  then show ?case by simp
next
  case (Cons x xs)
  from Cons.IH [where ?m0.0 = "AList.update (nid x) x m0"] Cons.prems
  have "(k, n) \<in> set (AList.update (nid x) x m0) \<or> (n \<in> set xs \<and> nid n = k)" by simp
  moreover have "(k, n) \<in> set (AList.update (nid x) x m0) \<Longrightarrow> (k, n) \<in> set m0 \<or> (n = x \<and> nid n = k)"
    using set_update_subset [of "nid x" x m0] by auto
  ultimately show ?case by auto
qed

lemma buildNodeMap_entries:
  "(k, n) \<in> set (buildNodeMap nodes) \<Longrightarrow> n \<in> set nodes \<and> nid n = k"
  using foldl_update_entries [of k n "[]" nodes] by (simp add: buildNodeMap_def)

lemma foldl_update_keys:
  "set (map fst (foldl (\<lambda>m node. AList.update (nid node) node m) m0 nodes)) =
     set (map fst m0) \<union> nid ` set nodes"
proof (induction nodes arbitrary: m0)
  case Nil
  then show ?case by simp
next
  case (Cons x xs)
  have "set (map fst (AList.update (nid x) x m0)) = insert (nid x) (set (map fst m0))"
    by (auto simp: update_keys)
  with Cons.IH [where ?m0.0 = "AList.update (nid x) x m0"] show ?case by auto
qed

lemma buildNodeMap_keys: "set (map fst (buildNodeMap nodes)) = nid ` set nodes"
  using foldl_update_keys [of "[]" nodes] by (simp add: buildNodeMap_def)

lemma foldl_update_distinct_ids:
  assumes "distinct (map fst m0 @ map nid nodes)"
  shows "foldl (\<lambda>m node. AList.update (nid node) node m) m0 nodes =
           m0 @ map (\<lambda>node. (nid node, node)) nodes"
  using assms
proof (induction nodes arbitrary: m0)
  case Nil
  then show ?case by simp
next
  case (Cons x xs)
  from Cons.prems have "nid x \<notin> fst ` set m0" by auto
  then have u: "AList.update (nid x) x m0 = m0 @ [(nid x, x)]"
    by (induction m0) auto
  from Cons.prems have "distinct (map fst (m0 @ [(nid x, x)]) @ map nid xs)" by auto
  from Cons.IH [OF this] u show ?case by simp
qed

lemma buildNodeMap_distinct_ids:
  "distinct (map nid nodes) \<Longrightarrow> buildNodeMap nodes = map (\<lambda>node. (nid node, node)) nodes"
  using foldl_update_distinct_ids [of "[]" nodes] by (simp add: buildNodeMap_def)

lemma result_entry:
  assumes "(k, r) \<in> set (fst (loop edges (buildNodeMap nodes) c i))"
  shows "\<exists>n. (k, n) \<in> set (buildNodeMap nodes) \<and> recomputed n r"
proof -
  let ?b = "buildNodeMap nodes"
  let ?m = "fst (loop edges ?b c i)"
  have keys: "map fst ?m = map fst ?b" by (rule loop_keys)
  then have "distinct (map fst ?m)" by (simp add: buildNodeMap_distinct)
  with assms have r: "map_of ?m k = Some r" by simp
  then have "k \<in> set (map fst ?m)" by (rule map_of_Some_key)
  then have "k \<in> set (map fst ?b)" by (simp only: keys)
  then have "\<exists>n. map_of ?b k = Some n" by (rule key_map_of)
  then obtain n where n: "map_of ?b k = Some n" ..
  from loop_recomputed [OF n, of edges c i] r have "recomputed n r" by simp
  moreover from n have "(k, n) \<in> set ?b" by (rule map_of_SomeD)
  ultimately show ?thesis by blast
qed

lemma result_ids:
  "map nid (map snd (fst (loop edges (buildNodeMap nodes) c i))) = map fst (buildNodeMap nodes)"
proof -
  let ?b = "buildNodeMap nodes"
  let ?m = "fst (loop edges ?b c i)"
  have "nid (snd e) = fst e" if "e \<in> set ?m" for e
  proof -
    from that have "(fst e, snd e) \<in> set ?m" by simp
    from result_entry [OF this]
    obtain n where n: "(fst e, n) \<in> set ?b" "recomputed n (snd e)" by blast
    from n(2) have "nid (snd e) = nid n" by (simp add: recomputed_def)
    with buildNodeMap_entries [OF n(1)] show ?thesis by simp
  qed
  then have "map (nid \<circ> snd) ?m = map fst ?m" by (intro map_cong) auto
  then show ?thesis by (simp add: loop_keys)
qed

text \<open>
  The result has one node for each id of the input (in the input's order when the ids are
  distinct); each result node is an input node with at most its computed value rewritten,
  and an INPUT node comes back as it was.
\<close>

lemma calculateGraph_rewrites_only_values:
  "distinct (map nid (calculateGraph nodes edges)) \<and>
   set (map nid (calculateGraph nodes edges)) = set (map nid nodes) \<and>
   (\<forall>r\<in>set (calculateGraph nodes edges). \<exists>n\<in>set nodes. recomputed n r) \<and>
   (distinct (map nid nodes) \<longrightarrow>
      list_all2 recomputed nodes (calculateGraph nodes edges))"
proof -
  let ?b = "buildNodeMap nodes"
  let ?m = "fst (loop edges ?b True 0)"
  have res: "calculateGraph nodes edges = map snd ?m" by (simp add: calculateGraph_def runLoop_def)
  have ids: "map nid (calculateGraph nodes edges) = map fst ?b"
    unfolding res by (rule result_ids)
  have 1: "distinct (map nid (calculateGraph nodes edges))"
    by (simp only: ids buildNodeMap_distinct)
  have 2: "set (map nid (calculateGraph nodes edges)) = set (map nid nodes)"
    using buildNodeMap_keys [of nodes] by (simp add: ids)
  have 3: "\<forall>r\<in>set (calculateGraph nodes edges). \<exists>n\<in>set nodes. recomputed n r"
  proof
    fix r assume "r \<in> set (calculateGraph nodes edges)"
    then obtain k where "(k, r) \<in> set ?m" by (auto simp: res)
    from result_entry [OF this] obtain n where "(k, n) \<in> set ?b" "recomputed n r" by blast
    with buildNodeMap_entries [of k n nodes] show "\<exists>n\<in>set nodes. recomputed n r" by blast
  qed
  have 4: "list_all2 recomputed nodes (calculateGraph nodes edges)" if d: "distinct (map nid nodes)"
  proof (rule list_all2_all_nthI)
    from d have b: "?b = map (\<lambda>node. (nid node, node)) nodes" by (rule buildNodeMap_distinct_ids)
    have "length (map nid (calculateGraph nodes edges)) = length (map fst ?b)" by (simp only: ids)
    then show len: "length nodes = length (calculateGraph nodes edges)" by (simp add: b)
    fix j assume j: "j < length nodes"
    let ?r = "calculateGraph nodes edges ! j"
    from j len have jm: "j < length ?m" by (simp add: res)
    then have "?m ! j \<in> set ?m" by (rule nth_mem)
    then have "(fst (?m ! j), ?r) \<in> set ?m" using jm by (simp add: res)
    from result_entry [OF this]
    obtain n where n: "(fst (?m ! j), n) \<in> set ?b" "recomputed n ?r" by blast
    from buildNodeMap_entries [OF n(1)] have nk: "n \<in> set nodes" "nid n = fst (?m ! j)" by simp_all
    have "map fst ?m ! j = map fst ?b ! j" by (simp only: loop_keys)
    with jm j have "fst (?m ! j) = nid (nodes ! j)" by (simp add: b)
    with nk have "nid n = nid (nodes ! j)" by simp
    with d nk(1) j have "n = nodes ! j"
      by (metis distinct_map inj_onD nth_mem)
    with n(2) show "recomputed (nodes ! j) ?r" by simp
  qed
  from 1 2 3 4 show ?thesis by blast
qed

section \<open>Archived snapshots and assignments to node objects\<close>

text \<open>
  C3 says that an archived snapshot holds clones, so that \<open>updateNodeValue\<close> cannot change
  it. The snapshot taken by \<open>updateNodeValue\<close> on the initial graph holds the live node
  objects themselves; the assignment to \<open>node.data\<close> that follows shows in the archive,
  where node \<open>1\<close> now has the entered value \<open>7\<close> instead of \<open>10\<close>, and \<open>undo\<close> brings
  back a live graph with \<open>7\<close>. \<open>deleteNode\<close>, which builds new arrays, leaves the
  snapshot it has just archived as it was.
\<close>

theorem updateNodeValue_changes_archive:
  "archived (takeSnapshotFlow initialFlow) =
     [\<lparr>snapNodes = initialNodes, snapEdges = initialEdges\<rparr>] \<and>
   map refNodes (past (history (takeSnapshotFlow initialFlow))) = [liveNodes initialFlow] \<and>
   map (map (inputValue \<circ> data) \<circ> snapNodes) (archived (takeSnapshotFlow initialFlow)) =
     [[Some (Fin 10), Some (Fin 5), None, None]] \<and>
   map (map (inputValue \<circ> data) \<circ> snapNodes)
     (archived (updateNodeValue ''1'' (Fin 7) initialFlow)) =
     [[Some (Fin 7), Some (Fin 5), None, None]] \<and>
   map (inputValue \<circ> data \<circ> (!) (objects (undoFlow (updateNodeValue ''1'' (Fin 7) initialFlow))))
     (liveNodes (undoFlow (updateNodeValue ''1'' (Fin 7) initialFlow))) =
     [Some (Fin 7), Some (Fin 5), None, None] \<and>
   archived (deleteNode ''4'' initialFlow) =
     [\<lparr>snapNodes = initialNodes, snapEdges = initialEdges\<rparr>]"
  by code_simp

section \<open>The history of the component\<close>

subsection \<open>The bound on \<open>past\<close>\<close>

lemma history_takeSnapshotFlow:
  "history (takeSnapshotFlow f) =
     takeSnapshot (stringifyRef (objects f)) (currentGraph f) (history f)"
  by (simp add: takeSnapshotFlow_def)

lemma history_undoFlow: "history (undoFlow f) = snd (undo (currentGraph f, history f))"
  by (simp add: undoFlow_def split: prod.splits)

lemma history_redoFlow: "history (redoFlow f) = snd (redo (currentGraph f, history f))"
  by (simp add: redoFlow_def split: prod.splits)

lemma history_updateNodeValue: "history (updateNodeValue i v f) = history (takeSnapshotFlow f)"
  by (simp add: updateNodeValue_def Let_def)

lemma history_deleteNode: "history (deleteNode i f) = history (takeSnapshotFlow f)"
  by (simp add: deleteNode_def Let_def)

lemma history_evaluateEffect: "history (evaluateEffect f) = history f"
  by (simp add: evaluateEffect_def split: prod.splits)

lemma step_bound:
  assumes "length (past (history f)) + length (future (history f)) \<le> 21"
  shows "length (past (history (step f ev))) + length (future (history (step f ev))) \<le> 21"
proof (cases ev)
  case TakeSnapshot
  with assms takeSnapshot_bound [of "history f" "stringifyRef (objects f)" "currentGraph f"]
  show ?thesis by (simp add: history_takeSnapshotFlow)
next
  case Undo
  with assms undo_bound [of "(currentGraph f, history f)"] show ?thesis
    by (simp add: history_undoFlow)
next
  case Redo
  with assms redo_bound [of "(currentGraph f, history f)"] show ?thesis
    by (simp add: history_redoFlow)
next
  case (UpdateNodeValue i v)
  with assms takeSnapshot_bound [of "history f" "stringifyRef (objects f)" "currentGraph f"]
  show ?thesis by (simp add: history_updateNodeValue history_takeSnapshotFlow)
next
  case (DeleteNode i)
  with assms takeSnapshot_bound [of "history f" "stringifyRef (objects f)" "currentGraph f"]
  show ?thesis by (simp add: history_deleteNode history_takeSnapshotFlow)
next
  case Evaluate
  with assms show ?thesis by (simp add: history_evaluateEffect)
next
  case (Change g)
  with assms show ?thesis by simp
qed

lemma run_bound:
  assumes "length (past (history f)) + length (future (history f)) \<le> 21"
  shows "length (past (history (foldl step f evs))) +
         length (future (history (foldl step f evs))) \<le> 21"
  using assms by (induction evs arbitrary: f) (simp_all add: step_bound)

text \<open>
  In every state that the component reaches from an empty history, \<open>past\<close> holds at most
  21 entries; and a snapshot that is pushed goes on top of the last 20 entries.
\<close>

lemma past_bounded:
  assumes "history f = emptyHistory"
  shows "length (past (history (foldl step f evs))) \<le> 21"
proof -
  from assms have "length (past (history f)) + length (future (history f)) \<le> 21"
    by (simp add: emptyHistory_def)
  from run_bound [OF this, of evs] show ?thesis by simp
qed

lemma takeSnapshotFlow_push:
  assumes "past (history f) = [] \<or>
           stringifyRef (objects f) (last (past (history f))) \<noteq>
             stringifyRef (objects f) (currentGraph f)"
  shows "past (history (takeSnapshotFlow f)) =
           drop (length (past (history f)) - 20) (past (history f)) @ [currentGraph f]"
  using takeSnapshot_push [OF assms] by (simp add: history_takeSnapshotFlow sliceLast_def)

text \<open>
  When the entry on top of \<open>past\<close> holds the live arrays, the snapshot finds it equal to
  the live graph, whatever has been assigned to the node objects since it was pushed,
  and pushes nothing; and the snapshot of \<open>updateNodeValue\<close> leaves such an entry on top.
\<close>

lemma takeSnapshotFlow_top_is_live:
  assumes "past (history f) \<noteq> []" and "last (past (history f)) = currentGraph f"
  shows "takeSnapshotFlow f = f"
  using assms by (simp add: takeSnapshotFlow_def takeSnapshot_def)

lemma updateNodeValue_top_is_live:
  assumes "past (history f) \<noteq> []" and "last (past (history f)) = currentGraph f"
  shows "history (updateNodeValue i v f) = history f"
    and "currentGraph (updateNodeValue i v f) = currentGraph f"
  using assms
  by (simp_all add: updateNodeValue_def Let_def takeSnapshotFlow_top_is_live currentGraph_def)

text \<open>
  C8 says that after 25 distinct mutations, each of them snapshotted, \<open>past\<close> holds the 21
  most recent states. The component starts with an empty history; the user deletes node
  \<open>3\<close> and then enters \<open>11, \<dots>, 34\<close> into node \<open>1\<close>: 25 mutations, and the 26 graphs that
  the component shows one after the other are all different. \<open>updateNodeValue\<close> assigns
  to the node objects that the entry on top of \<open>past\<close> holds, so from the second entered
  value on the snapshot finds the top of \<open>past\<close> equal to the live graph and pushes
  nothing: \<open>past\<close> ends with 2 entries, the initial graph and an entry that shows the last
  value entered. The cause is the one of C3: the snapshot archives the live node objects
  and \<open>updateNodeValue\<close> assigns to them. The bound of 21 entries and the push onto the
  last 20 entries hold; they are the lemmas \<open>past_bounded\<close> and \<open>takeSnapshotFlow_push\<close>.
\<close>

theorem edits_in_place_starve_past:
  "history startedFlow = emptyHistory \<and>
   length twentyFiveMutations = 25 \<and>
   distinct (map liveGraph (visited startedFlow twentyFiveMutations)) \<and>
   map (fst \<circ> hd \<circ> shown \<circ> liveGraph) (visited startedFlow twentyFiveMutations) =
     map (\<lambda>v. Some (Fin (of_nat v))) ([10, 10] @ [11..<35]) \<and>
   length (past (history (perform startedFlow twentyFiveMutations))) = 2 \<and>
   map shown (archived (perform startedFlow twentyFiveMutations)) =
     [[(Some (Fin 10), None), (Some (Fin 5), None), (None, Some (Fin 15)), (None, Some (Fin 15))],
      [(Some (Fin 34), None), (Some (Fin 5), None), (None, None)]]"
  by code_simp

subsection \<open>Undo after an edit\<close>

lemma redoFlow_undoFlow:
  assumes "past (history f) \<noteq> []"
  shows "redoFlow (undoFlow f) = f"
proof -
  obtain s h where u: "undo (currentGraph f, history f) = (s, h)"
    by (cases "undo (currentGraph f, history f)")
  then have f': "undoFlow f = f\<lparr>liveNodes := refNodes s, liveEdges := refEdges s, history := h\<rparr>"
    by (simp add: undoFlow_def)
  have "currentGraph (undoFlow f) = s" by (simp add: f' currentGraph_def)
  moreover have "history (undoFlow f) = h" by (simp add: f')
  moreover from redo_undo [OF assms, of "currentGraph f"] u
  have "redo (s, h) = (currentGraph f, history f)" by simp
  ultimately have "redoFlow (undoFlow f) =
      (undoFlow f)\<lparr>liveNodes := liveNodes f, liveEdges := liveEdges f, history := history f\<rparr>"
    by (simp add: redoFlow_def currentGraph_def)
  then show ?thesis by (simp add: f')
qed

lemma undoFlow_empty: "past (history f) = [] \<Longrightarrow> undoFlow f = f"
  by (simp add: undoFlow_def undo_empty currentGraph_def)

lemma redoFlow_empty: "future (history f) = [] \<Longrightarrow> redoFlow f = f"
  by (simp add: redoFlow_def redo_empty currentGraph_def)

text \<open>
  C9 says that \<open>undo\<close> after a snapshotted mutation from \<open>S0\<close> to \<open>S1\<close> makes the live graph
  equal \<open>S0\<close>. The component shows the initial graph (\<open>S0\<close>: node \<open>1\<close> holds \<open>10\<close>, the
  sum is \<open>15\<close>); the user enters \<open>7\<close> into node \<open>1\<close> (\<open>S1\<close>: \<open>7\<close>, sum \<open>12\<close>), which
  archives the live array and then assigns to its node object; \<open>undo\<close> makes the archived
  array live, and node \<open>1\<close> shows \<open>7\<close>, not \<open>10\<close>, beside the sum \<open>15\<close> (and beside the
  sum \<open>12\<close> once the effect has run again). The cause is the one of C3. The rest of the
  claim holds here: \<open>future\<close> shows \<open>[S1]\<close>, \<open>past\<close> is empty, \<open>redo\<close> brings \<open>S1\<close> back; and
  \<open>undo\<close> after \<open>deleteNode\<close>, which builds new arrays, does bring back \<open>S0\<close>.
\<close>

theorem undo_after_edit_keeps_edit:
  "shown (liveGraph startedFlow) =
     [(Some (Fin 10), None), (Some (Fin 5), None), (None, Some (Fin 15)), (None, Some (Fin 15))] \<and>
   shown (liveGraph (enterValue 7 startedFlow)) =
     [(Some (Fin 7), None), (Some (Fin 5), None), (None, Some (Fin 12)), (None, Some (Fin 12))] \<and>
   map refNodes (past (history (enterValue 7 startedFlow))) = [liveNodes startedFlow] \<and>
   shown (liveGraph (undoFlow (enterValue 7 startedFlow))) =
     [(Some (Fin 7), None), (Some (Fin 5), None), (None, Some (Fin 15)), (None, Some (Fin 15))] \<and>
   liveGraph (undoFlow (enterValue 7 startedFlow)) \<noteq> liveGraph startedFlow \<and>
   shown (liveGraph (evaluateEffect (undoFlow (enterValue 7 startedFlow)))) =
     [(Some (Fin 7), None), (Some (Fin 5), None), (None, Some (Fin 12)), (None, Some (Fin 12))] \<and>
   archived (undoFlow (enterValue 7 startedFlow)) = [liveGraph (enterValue 7 startedFlow)] \<and>
   past (history (undoFlow (enterValue 7 startedFlow))) = [] \<and>
   liveGraph (redoFlow (undoFlow (enterValue 7 startedFlow))) =
     liveGraph (enterValue 7 startedFlow) \<and>
   liveGraph (undoFlow (evaluateEffect (deleteNode ''4'' startedFlow))) = liveGraph startedFlow"
  by code_simp

section \<open>The evaluator does not touch its arguments\<close>

subsection \<open>Reading a map of addresses\<close>

lemma deref_keys: "map fst (deref st nm) = map fst nm"
  by (induction nm) (auto simp: deref_def)

lemma deref_values: "map snd (deref st nm) = map ((!) st) (map snd nm)"
  by (induction nm) (auto simp: deref_def)

lemma deref_append:
  "\<forall>a\<in>snd ` set nm. a < length st \<Longrightarrow> deref (st @ ys) nm = deref st nm"
  by (induction nm) (auto simp: deref_def nth_append)

lemma deref_update_elsewhere:
  "a \<notin> snd ` set nm \<Longrightarrow> deref (st[a := x]) nm = deref st nm"
  by (induction nm) (auto simp: deref_def)

lemma deref_copy:
  assumes "\<forall>a\<in>snd ` set nm. a < length st"
  shows "deref (st @ [x]) (AList.update k (length st) nm) = AList.update k x (deref st nm)"
  using assms
proof (induction nm)
  case Nil
  then show ?case by (simp add: deref_def)
next
  case (Cons p nm)
  obtain k' a' where p: "p = (k', a')" by (cases p)
  from Cons.prems have rest: "\<forall>a\<in>snd ` set nm. a < length st" and a': "a' < length st"
    by (auto simp: p)
  show ?case
  proof (cases "k' = k")
    case True
    have "deref (st @ [x]) nm = deref st nm" using rest by (rule deref_append)
    then show ?thesis using True by (simp add: p deref_def)
  next
    case False
    from Cons.IH [OF rest] a' False show ?thesis by (simp add: p deref_def nth_append)
  qed
qed

lemma deref_assign:
  assumes "distinct (map fst nm)" and "distinct (map snd nm)" and "(k, a) \<in> set nm"
    and "a < length st"
  shows "deref (st[a := x]) nm = AList.update k x (deref st nm)"
  using assms
proof (induction nm)
  case Nil
  then show ?case by simp
next
  case (Cons p nm)
  obtain k' a' where p: "p = (k', a')" by (cases p)
  show ?case
  proof (cases "(k', a') = (k, a)")
    case True
    from Cons.prems(2) True have "a \<notin> snd ` set nm" by (simp add: p)
    then have "deref (st[a := x]) nm = deref st nm" by (rule deref_update_elsewhere)
    with True Cons.prems(4) show ?thesis by (simp add: p deref_def)
  next
    case False
    with Cons.prems(3) have mem: "(k, a) \<in> set nm" by (auto simp: p)
    from mem Cons.prems(1) have "k' \<noteq> k" by (force simp: p)
    moreover from mem Cons.prems(2) have "a' \<noteq> a" by (force simp: p)
    moreover from Cons.prems have "deref (st[a := x]) nm = AList.update k x (deref st nm)"
      by (intro Cons.IH mem) (simp_all add: p)
    ultimately show ?thesis by (simp add: p deref_def)
  qed
qed

lemma map_of_deref:
  assumes "distinct (map fst nm)" and "(k, a) \<in> set nm"
  shows "map_of (deref st nm) k = Some (st ! a)"
proof -
  from assms(2) have "(k, st ! a) \<in> set (deref st nm)" by (force simp: deref_def)
  moreover from assms(1) have "distinct (map fst (deref st nm))" by (simp add: deref_keys)
  ultimately show ?thesis by simp
qed

lemma wfRefMap_addr: "wfRefMap base st nm \<Longrightarrow> (k, a) \<in> set nm \<Longrightarrow> base \<le> a \<and> a < length st"
  by (force simp: wfRefMap_def list_all_iff)

lemma visitRef_length: "length (fst (visitRef edges nm sc a)) = length (fst sc)"
  by (cases sc) (simp add: visitRef_def Let_def)

lemma visitRef_frame: "b \<noteq> a \<Longrightarrow> fst (visitRef edges nm sc a) ! b = fst sc ! b"
  by (cases sc) (simp add: visitRef_def Let_def)

lemma visitRef_refines:
  assumes "wfRefMap base st nm" and "(k, a) \<in> set nm"
  shows "(deref (fst (visitRef edges nm (st, c) a)) nm, snd (visitRef edges nm (st, c) a)) =
           visit edges (deref st nm, c) k"
proof -
  from assms(1) have d: "distinct (map fst nm)" "distinct (map snd nm)"
    by (simp_all add: wfRefMap_def)
  from wfRefMap_addr [OF assms] have a: "a < length st" by simp
  from map_of_deref [OF d(1) assms(2)] have look: "map_of (deref st nm) k = Some (st ! a)" .
  show ?thesis
  proof (cases "ntype (st ! a) = Some INPUT")
    case True
    with look show ?thesis by (simp add: visitRef_def visit_def)
  next
    case False
    show ?thesis
    proof (cases "strict_neq (val (data (st ! a))) (newValue (deref st nm) edges (st ! a))")
      case True
      with False look deref_assign [OF d assms(2) a] show ?thesis
        by (simp add: visitRef_def visit_def Let_def)
    next
      case neq: False
      with False look show ?thesis by (simp add: visitRef_def visit_def Let_def)
    qed
  qed
qed

lemma wfRefMap_visitRef:
  "wfRefMap base (fst sc) nm \<Longrightarrow> wfRefMap base (fst (visitRef edges nm sc a)) nm"
  by (simp add: wfRefMap_def visitRef_length)

lemma foldl_visitRef_refines:
  assumes "wfRefMap base st nm" and "set ps \<subseteq> set nm"
  shows "(deref (fst (foldl (visitRef edges nm) (st, c) (map snd ps))) nm,
          snd (foldl (visitRef edges nm) (st, c) (map snd ps))) =
           foldl (visit edges) (deref st nm, c) (map fst ps) \<and>
         length (fst (foldl (visitRef edges nm) (st, c) (map snd ps))) = length st \<and>
         (\<forall>b. b \<notin> snd ` set nm \<longrightarrow>
            fst (foldl (visitRef edges nm) (st, c) (map snd ps)) ! b = st ! b)"
  using assms
proof (induction ps arbitrary: st c)
  case Nil
  then show ?case by simp
next
  case (Cons p ps)
  obtain k a where p: "p = (k, a)" by (cases p)
  obtain st1 c1 where v: "visitRef edges nm (st, c) a = (st1, c1)"
    by (cases "visitRef edges nm (st, c) a")
  from Cons.prems(2) have mem: "(k, a) \<in> set nm" and sub: "set ps \<subseteq> set nm" by (auto simp: p)
  from visitRef_refines [OF Cons.prems(1) mem, of edges c] v
  have r: "visit edges (deref st nm, c) k = (deref st1 nm, c1)" by simp
  from wfRefMap_visitRef [of base "(st, c)" nm edges a] Cons.prems(1) v
  have wf1: "wfRefMap base st1 nm" by simp
  from visitRef_length [of edges nm "(st, c)" a] v have len: "length st1 = length st" by simp
  have frame: "st1 ! b = st ! b" if "b \<notin> snd ` set nm" for b
  proof -
    from that mem have "b \<noteq> a" by force
    from visitRef_frame [OF this, of edges nm "(st, c)"] v show ?thesis by simp
  qed
  from Cons.IH [OF wf1 sub, of c1] show ?case
    by (simp add: p v r len frame)
qed

lemma passRef_refines:
  assumes "wfRefMap base st nm"
  shows "(deref (fst (passRef edges nm st)) nm, snd (passRef edges nm st)) =
           pass edges (deref st nm) \<and>
         length (fst (passRef edges nm st)) = length st \<and>
         (\<forall>b. b \<notin> snd ` set nm \<longrightarrow> fst (passRef edges nm st) ! b = st ! b)"
  using foldl_visitRef_refines [OF assms subset_refl, of edges False]
  by (simp add: passRef_def pass_def deref_keys)

lemma loopRef_stop: "\<not> (c \<and> i < 50) \<Longrightarrow> loopRef edges nm st c i = (st, c, i)"
  by (subst loopRef.simps) auto

lemma loopRef_step:
  "c \<and> i < 50 \<Longrightarrow> passRef edges nm st = (st', c') \<Longrightarrow>
   loopRef edges nm st c i = loopRef edges nm st' c' (i + 1)"
  by (subst loopRef.simps) simp

lemma loopRef_refines:
  assumes "wfRefMap base st nm"
  shows "(deref (fst (loopRef edges nm st c i)) nm, snd (loopRef edges nm st c i)) =
           loop edges (deref st nm) c i \<and>
         length (fst (loopRef edges nm st c i)) = length st \<and>
         (\<forall>b. b \<notin> snd ` set nm \<longrightarrow> fst (loopRef edges nm st c i) ! b = st ! b)"
  using assms
proof (induction edges nm st c i rule: loopRef.induct)
  case (1 edges nm st c i)
  show ?case
  proof (cases "c \<and> i < 50")
    case True
    obtain st1 c1 where p: "passRef edges nm st = (st1, c1)" by (cases "passRef edges nm st")
    from passRef_refines [OF "1.prems", of edges] p
    have r: "pass edges (deref st nm) = (deref st1 nm, c1)" and len: "length st1 = length st"
      and frame: "\<forall>b. b \<notin> snd ` set nm \<longrightarrow> st1 ! b = st ! b" by simp_all
    from "1.prems" len have wf1: "wfRefMap base st1 nm" by (simp add: wfRefMap_def)
    from "1.IH" [OF True p [symmetric] wf1] loopRef_step [OF True p] loop_step [OF True r]
    show ?thesis by (simp add: len frame)
  next
    case False
    then show ?thesis by (simp add: loopRef_stop loop_stop)
  qed
qed

subsection \<open>Copying the nodes into the map\<close>

lemma snd_update_subset: "snd ` set (AList.update k a nm) \<subseteq> insert a (snd ` set nm)"
  by (induction nm) auto

lemma distinct_snd_update:
  assumes "distinct (map snd nm)" and "a \<notin> snd ` set nm"
  shows "distinct (map snd (AList.update k a nm))"
  using assms
proof (induction nm)
  case Nil
  then show ?case by simp
next
  case (Cons p nm)
  from Cons.prems have d: "distinct (map snd nm)" and a: "a \<notin> snd ` set nm"
    and p: "snd p \<notin> snd ` set nm" "snd p \<noteq> a" by auto
  show ?case
  proof (cases "fst p = k")
    case True
    with d a show ?thesis by simp
  next
    case False
    from snd_update_subset [of k a nm] p have "snd p \<notin> snd ` set (AList.update k a nm)" by auto
    with Cons.IH [OF d a] False show ?thesis by simp
  qed
qed

lemma wfRefMap_copy:
  assumes "wfRefMap base st nm" and "base \<le> length st"
  shows "wfRefMap base (st @ [x]) (AList.update k (length st) nm)"
proof -
  from assms(1) have d: "distinct (map fst nm)" "distinct (map snd nm)"
    and b: "\<forall>a\<in>snd ` set nm. base \<le> a \<and> a < length st"
    by (auto simp: wfRefMap_def list_all_iff)
  from b have fresh: "length st \<notin> snd ` set nm" by auto
  have "\<forall>a\<in>snd ` set (AList.update k (length st) nm). base \<le> a \<and> a < length (st @ [x])"
    using snd_update_subset [of k "length st" nm] b assms(2) by fastforce
  with d fresh show ?thesis
    by (simp add: wfRefMap_def distinct_update distinct_snd_update list_all_iff)
qed

lemma foldl_copyNode:
  assumes "take n stc = st" and "n = length st" and "wfRefMap n stc nm"
    and "\<forall>r\<in>set refs. r < n"
  shows "take n (fst (foldl copyNode (stc, nm) refs)) = st \<and>
         wfRefMap n (fst (foldl copyNode (stc, nm) refs)) (snd (foldl copyNode (stc, nm) refs)) \<and>
         deref (fst (foldl copyNode (stc, nm) refs)) (snd (foldl copyNode (stc, nm) refs)) =
           foldl (\<lambda>m node. AList.update (nid node) node m) (deref stc nm) (map ((!) st) refs)"
  using assms
proof (induction refs arbitrary: stc nm)
  case Nil
  then show ?case by simp
next
  case (Cons r refs)
  from Cons.prems have r: "r < n" and rest: "\<forall>r\<in>set refs. r < n" by simp_all
  from Cons.prems(1,2) have len: "n \<le> length stc" by (metis length_take min.cobounded2 min.commute)
  from Cons.prems(1) r have rd: "stc ! r = st ! r" by (metis nth_take)
  let ?stc = "stc @ [st ! r]"
  let ?nm = "AList.update (nid (st ! r)) (length stc) nm"
  have step: "copyNode (stc, nm) r = (?stc, ?nm)" by (simp add: copyNode_def rd)
  from Cons.prems(1) len have t: "take n ?stc = st" by simp
  from wfRefMap_copy [OF Cons.prems(3) len] have wf: "wfRefMap n ?stc ?nm" .
  from Cons.prems(3) have "\<forall>a\<in>snd ` set nm. a < length stc"
    by (auto simp: wfRefMap_def list_all_iff)
  then have d: "deref ?stc ?nm = AList.update (nid (st ! r)) (st ! r) (deref stc nm)"
    by (rule deref_copy)
  from Cons.IH [OF t Cons.prems(2) wf rest] show ?case by (simp add: step d)
qed

lemma buildNodeMapRef_refines:
  assumes "\<forall>r\<in>set refs. r < length st"
  shows "take (length st) (fst (buildNodeMapRef st refs)) = st \<and>
         wfRefMap (length st) (fst (buildNodeMapRef st refs)) (snd (buildNodeMapRef st refs)) \<and>
         deref (fst (buildNodeMapRef st refs)) (snd (buildNodeMapRef st refs)) =
           buildNodeMap (map ((!) st) refs)"
proof -
  have "wfRefMap (length st) st []" by (simp add: wfRefMap_def)
  from foldl_copyNode [OF _ refl this assms] show ?thesis
    by (simp add: buildNodeMapRef_def buildNodeMap_def deref_def)
qed

lemma calculateGraphRef_refines:
  assumes "\<forall>r\<in>set refs. r < length st"
  shows "take (length st) (fst (calculateGraphRef st refs edges)) = st \<and>
         list_all (\<lambda>a. length st \<le> a \<and> a < length (fst (calculateGraphRef st refs edges)))
           (snd (calculateGraphRef st refs edges)) \<and>
         map ((!) (fst (calculateGraphRef st refs edges))) (snd (calculateGraphRef st refs edges)) =
           calculateGraph (map ((!) st) refs) edges"
proof -
  obtain st0 nm where b: "buildNodeMapRef st refs = (st0, nm)" by (cases "buildNodeMapRef st refs")
  obtain st1 c1 i1 where l: "loopRef edges nm st0 True 0 = (st1, c1, i1)"
    by (cases "loopRef edges nm st0 True 0")
  have res: "calculateGraphRef st refs edges = (st1, map snd nm)"
    by (simp add: calculateGraphRef_def b l)
  from buildNodeMapRef_refines [OF assms] b
  have t0: "take (length st) st0 = st" and wf: "wfRefMap (length st) st0 nm"
    and d0: "deref st0 nm = buildNodeMap (map ((!) st) refs)" by simp_all
  from loopRef_refines [OF wf, of edges True 0] l
  have r: "loop edges (deref st0 nm) True 0 = (deref st1 nm, c1, i1)"
    and len: "length st1 = length st0"
    and frame: "\<forall>b. b \<notin> snd ` set nm \<longrightarrow> st1 ! b = st0 ! b" by simp_all
  from wf have addr: "\<forall>a\<in>snd ` set nm. length st \<le> a \<and> a < length st0"
    by (auto simp: wfRefMap_def list_all_iff)
  have "take (length st) st1 = take (length st) st0"
  proof (rule nth_take_lemma)
    from t0 show "length st \<le> length st1" unfolding len by (metis length_take min.cobounded2 min.commute)
    from t0 show "length st \<le> length st0" by (metis length_take min.cobounded2 min.commute)
    show "j < length st \<longrightarrow> st1 ! j = st0 ! j" for j
    proof
      assume "j < length st"
      with addr have "j \<notin> snd ` set nm" by auto
      with frame show "st1 ! j = st0 ! j" by simp
    qed
  qed
  with t0 have 1: "take (length st) st1 = st" by simp
  from addr len have 2: "list_all (\<lambda>a. length st \<le> a \<and> a < length st1) (map snd nm)"
    by (auto simp: list_all_iff)
  have "calculateGraph (map ((!) st) refs) edges = map snd (deref st1 nm)"
    by (simp add: calculateGraph_def runLoop_def d0 [symmetric] r)
  then have 3: "map ((!) st1) (map snd nm) = calculateGraph (map ((!) st) refs) edges"
    by (simp add: deref_values)
  from 1 2 3 show ?thesis by (simp only: res fst_conv snd_conv simp_thms)
qed

text \<open>
  C10: \<open>calculateGraph\<close> leaves every object of the store it is given as it was, the node
  objects of its argument among them (and the arrays, which it only reads); the array it
  returns holds new objects only. Read in the new store, the result has one node for each
  id of the input, in the input's order when the ids are distinct; each result node is an
  input node with the same id, type, position, label, entered value, operation and
  callback, and an INPUT node keeps its computed value too.
\<close>

theorem calculateGraph_is_pure:
  assumes "\<forall>r\<in>set refs. r < length st"
  shows "take (length st) (fst (calculateGraphRef st refs edges)) = st \<and>
         list_all (\<lambda>a. length st \<le> a \<and> a < length (fst (calculateGraphRef st refs edges)))
           (snd (calculateGraphRef st refs edges)) \<and>
         map ((!) (fst (calculateGraphRef st refs edges))) (snd (calculateGraphRef st refs edges)) =
           calculateGraph (map ((!) st) refs) edges \<and>
         distinct (map nid (calculateGraph (map ((!) st) refs) edges)) \<and>
         set (map nid (calculateGraph (map ((!) st) refs) edges)) = set (map nid (map ((!) st) refs)) \<and>
         (\<forall>r\<in>set (calculateGraph (map ((!) st) refs) edges).
            \<exists>n\<in>set (map ((!) st) refs). recomputed n r) \<and>
         (distinct (map nid (map ((!) st) refs)) \<longrightarrow>
            list_all2 recomputed (map ((!) st) refs) (calculateGraph (map ((!) st) refs) edges))"
  using calculateGraphRef_refines [OF assms, of edges]
    calculateGraph_rewrites_only_values [of "map ((!) st) refs" edges]
  by (elim conjE, intro conjI) assumption+

theorem calculateGraph_is_pure_witness:
  "take 4 (fst (calculateGraphRef initialNodes [0, 1, 2, 3] initialEdges)) = initialNodes \<and>
   snd (calculateGraphRef initialNodes [0, 1, 2, 3] initialEdges) = [4, 5, 6, 7] \<and>
   map ((!) (fst (calculateGraphRef initialNodes [0, 1, 2, 3] initialEdges))) [4, 5, 6, 7] =
     calculateGraph initialNodes initialEdges \<and>
   map nid (calculateGraph initialNodes initialEdges) = [''1'', ''2'', ''3'', ''4''] \<and>
   map (val \<circ> data) (calculateGraph initialNodes initialEdges) =
     [None, None, Some (Fin 15), Some (Fin 15)] \<and>
   list_all2 recomputed initialNodes (calculateGraph initialNodes initialEdges)"
proof -
  have v: "\<forall>r\<in>set [0, 1, 2, 3]. r < length initialNodes" by code_simp
  have e: "map ((!) initialNodes) [0, 1, 2, 3] = initialNodes" "length initialNodes = 4"
    "snd (calculateGraphRef initialNodes [0, 1, 2, 3] initialEdges) = [4, 5, 6, 7]"
    "distinct (map nid initialNodes)"
    "map nid (calculateGraph initialNodes initialEdges) = [''1'', ''2'', ''3'', ''4'']"
    "map (val \<circ> data) (calculateGraph initialNodes initialEdges) =
       [None, None, Some (Fin 15), Some (Fin 15)]"
    by code_simp+
  note T = calculateGraph_is_pure [OF v, of initialEdges, unfolded e]
  from T e(4) have 1: "take 4 (fst (calculateGraphRef initialNodes [0, 1, 2, 3] initialEdges)) = initialNodes"
    "map ((!) (fst (calculateGraphRef initialNodes [0, 1, 2, 3] initialEdges))) [4, 5, 6, 7] =
     calculateGraph initialNodes initialEdges"
    "list_all2 recomputed initialNodes (calculateGraph initialNodes initialEdges)"
    by (simp_all only: simp_thms)
  show ?thesis
    by (intro conjI) (rule 1 e)+
qed

section \<open>Convergence on acyclic graphs\<close>

subsection \<open>What a computed value depends on\<close>

lemma getSourceValue_srcval:
  "getSourceValue m edges t h =
     (case find (\<lambda>e. target e = t \<and> handleMatches h e) edges of
        None \<Rightarrow> None
      | Some e \<Rightarrow> srcval m (source e))"
  by (simp add: getSourceValue_def srcval_def split: option.splits)

lemma getSourceValue_cong:
  assumes "\<forall>e\<in>set edges. target e = t \<longrightarrow> srcval m' (source e) = srcval m (source e)"
  shows "getSourceValue m' edges t h = getSourceValue m edges t h"
proof (cases "find (\<lambda>e. target e = t \<and> handleMatches h e) edges")
  case None
  then show ?thesis by (simp add: getSourceValue_srcval)
next
  case (Some e)
  then have "e \<in> set edges" and "target e = t"
    by (auto simp: find_Some_iff)
  with assms have "srcval m' (source e) = srcval m (source e)" by simp
  with Some show ?thesis by (simp add: getSourceValue_srcval)
qed

lemma newValue_cong:
  assumes "\<forall>e\<in>set edges. target e = nid node \<longrightarrow> srcval m' (source e) = srcval m (source e)"
    and "recomputed node node'"
  shows "newValue m' edges node' = newValue m edges node"
proof -
  from assms(2) have same: "nid node' = nid node" "ntype node' = ntype node"
    "operation (data node') = operation (data node)" by (simp_all add: recomputed_def)
  have "getSourceValue m' edges (nid node) h = getSourceValue m edges (nid node) h" for h
    using assms(1) by (rule getSourceValue_cong)
  then show ?thesis by (simp add: newValue_def same cong: option.case_cong)
qed

lemma srcval_visit_other: "s \<noteq> k \<Longrightarrow> srcval (fst (visit edges st k)) s = srcval (fst st) s"
  by (simp add: srcval_def visit_other)

lemma visit_fixed:
  assumes "fixedAt edges m k"
  shows "fst (visit edges (m, c) k) = m"
proof (cases "map_of m k")
  case None
  then show ?thesis by (simp add: visit_absent)
next
  case (Some node)
  show ?thesis
  proof (cases "ntype node = Some INPUT")
    case True
    with Some show ?thesis by (simp add: visit_def)
  next
    case False
    with assms Some have v: "val (data node) = newValue m edges node" by (simp add: fixedAt_def)
    have "node\<lparr>data := (data node)\<lparr>val := newValue m edges node\<rparr>\<rparr> = node"
      by (simp add: v [symmetric])
    with Some False show ?thesis by (simp add: visit_def Let_def update_triv)
  qed
qed

lemma keyed_iff: "distinct (map fst m) \<Longrightarrow> keyed m \<longleftrightarrow> (\<forall>k n. map_of m k = Some n \<longrightarrow> nid n = k)"
  by (auto simp: keyed_def list_all_iff dest: map_of_SomeD)

lemma keyedD: "keyed m \<Longrightarrow> map_of m k = Some n \<Longrightarrow> nid n = k"
  by (auto simp: keyed_def list_all_iff dest: map_of_SomeD)

lemma keyed_visit:
  assumes "keyed m"
  shows "keyed (fst (visit edges (m, c) k))"
proof (cases "map_of m k")
  case None
  with assms show ?thesis by (simp add: visit_absent)
next
  case (Some node)
  let ?node = "node\<lparr>data := (data node)\<lparr>val := newValue m edges node\<rparr>\<rparr>"
  have "nid ?node = k" using keyedD [OF assms Some] by simp
  with assms set_update_subset [of k ?node m] have "keyed (AList.update k ?node m)"
    by (auto simp: keyed_def list_all_iff)
  with assms Some show ?thesis by (simp add: visit_def Let_def)
qed

subsection \<open>One turn of the loop on a map that is fixed up to a rank\<close>

lemma visit_not_fixed:
  assumes "\<not> fixedAt edges m y"
  obtains node where "map_of m y = Some node" and "ntype node \<noteq> Some INPUT"
    and "map_of (fst (visit edges (m, c) y)) y =
           Some (node\<lparr>data := (data node)\<lparr>val := newValue m edges node\<rparr>\<rparr>)"
proof -
  from assms obtain node where n: "map_of m y = Some node" "ntype node \<noteq> Some INPUT"
    by (auto simp: fixedAt_def split: option.splits)
  from visit_at [of "(m, c)" y node edges] n
  have "map_of (fst (visit edges (m, c) y)) y =
           Some (node\<lparr>data := (data node)\<lparr>val := newValue m edges node\<rparr>\<rparr>)" by simp
  with n that show ?thesis by blast
qed

lemma newValue_after_visit:
  fixes rk :: "string \<Rightarrow> nat"
  assumes rank: "\<forall>e\<in>set edges. rk (source e) < rk (target e)"
    and "rk (nid node) \<le> rk y" and "recomputed node node'"
  shows "newValue (fst (visit edges (m, c) y)) edges node' = newValue m edges node"
proof (rule newValue_cong [OF _ assms(3)], intro ballI impI)
  fix e assume "e \<in> set edges" and "target e = nid node"
  with rank assms(2) have "rk (source e) < rk y" by force
  then have "source e \<noteq> y" by auto
  from srcval_visit_other [OF this, of edges "(m, c)"]
  show "srcval (fst (visit edges (m, c) y)) (source e) = srcval m (source e)" by simp
qed

lemma visit_keeps_fixed:
  assumes rank: "\<forall>e\<in>set edges. rk (source e) < rk (target e)"
    and keyed: "keyed m"
    and stable: "\<forall>k. rk k \<le> j \<longrightarrow> fixedAt edges m k"
    and k: "rk k \<le> Suc j" "fixedAt edges m k"
  shows "fixedAt edges (fst (visit edges (m, c) y)) k"
proof (cases "fixedAt edges m y")
  case True
  with k(2) show ?thesis by (simp add: visit_fixed)
next
  case False
  with stable have "\<not> rk y \<le> j" by blast
  with k(1) have le: "rk k \<le> rk y" by simp
  from False k(2) have neq: "k \<noteq> y" by auto
  then have same: "map_of (fst (visit edges (m, c) y)) k = map_of m k" by (rule visit_other [of k y edges "(m, c)", simplified])
  show ?thesis
  proof (cases "map_of m k")
    case None
    with same show ?thesis by (simp add: fixedAt_def)
  next
    case (Some node)
    from keyedD [OF keyed Some] le have "rk (nid node) \<le> rk y" by simp
    from newValue_after_visit [OF rank this recomputed_refl, of m c]
    have "newValue (fst (visit edges (m, c) y)) edges node = newValue m edges node" .
    with k(2) Some same show ?thesis by (simp add: fixedAt_def)
  qed
qed

lemma visit_makes_fixed:
  fixes rk :: "string \<Rightarrow> nat"
  assumes rank: "\<forall>e\<in>set edges. rk (source e) < rk (target e)"
    and keyed: "keyed m"
  shows "fixedAt edges (fst (visit edges (m, c) y)) y"
proof (cases "fixedAt edges m y")
  case True
  then show ?thesis by (simp add: visit_fixed)
next
  case False
  then obtain node where n: "map_of m y = Some node" "ntype node \<noteq> Some INPUT"
    "map_of (fst (visit edges (m, c) y)) y =
       Some (node\<lparr>data := (data node)\<lparr>val := newValue m edges node\<rparr>\<rparr>)"
    by (rule visit_not_fixed)
  let ?node = "node\<lparr>data := (data node)\<lparr>val := newValue m edges node\<rparr>\<rparr>"
  have r: "recomputed node ?node" using n(2) by (simp add: recomputed_def)
  from keyedD [OF keyed n(1)] have "rk (nid node) \<le> rk y" by simp
  from newValue_after_visit [OF rank this r, of m c]
  have "newValue (fst (visit edges (m, c) y)) edges ?node = newValue m edges node" .
  with n(3) show ?thesis by (simp add: fixedAt_def)
qed

lemma foldl_visit_fixed:
  assumes rank: "\<forall>e\<in>set edges. rk (source e) < rk (target e)"
    and "keyed m" and "\<forall>k. rk k \<le> j \<longrightarrow> fixedAt edges m k"
  shows "keyed (fst (foldl (visit edges) (m, c) ks)) \<and>
         (\<forall>k. rk k \<le> Suc j \<and> (k \<in> set ks \<or> fixedAt edges m k) \<longrightarrow>
            fixedAt edges (fst (foldl (visit edges) (m, c) ks)) k)"
  using assms(2,3)
proof (induction ks arbitrary: m c)
  case Nil
  then show ?case by simp
next
  case (Cons y ks)
  obtain m1 c1 where v: "visit edges (m, c) y = (m1, c1)" by (cases "visit edges (m, c) y")
  from keyed_visit [OF Cons.prems(1), of edges c y] v have k1: "keyed m1" by simp
  have keep: "fixedAt edges m1 k" if "rk k \<le> Suc j" "fixedAt edges m k" for k
    using visit_keeps_fixed [OF rank Cons.prems(1,2) that, of c y] v by simp
  have s1: "\<forall>k. rk k \<le> j \<longrightarrow> fixedAt edges m1 k"
  proof (intro allI impI)
    fix k assume "rk k \<le> j"
    with Cons.prems(2) have "rk k \<le> Suc j" "fixedAt edges m k" by simp_all
    then show "fixedAt edges m1 k" by (rule keep)
  qed
  have y: "fixedAt edges m1 y"
    using visit_makes_fixed [OF rank Cons.prems(1), of c y] v by simp
  from Cons.IH [OF k1 s1, of c1]
  have IH: "keyed (fst (foldl (visit edges) (m1, c1) ks))"
    "\<And>k. rk k \<le> Suc j \<Longrightarrow> k \<in> set ks \<or> fixedAt edges m1 k \<Longrightarrow>
       fixedAt edges (fst (foldl (visit edges) (m1, c1) ks)) k" by simp_all
  show ?case
  proof (intro conjI allI impI)
    show "keyed (fst (foldl (visit edges) (m, c) (y # ks)))" using IH(1) by (simp add: v)
  next
    fix k assume a: "rk k \<le> Suc j \<and> (k \<in> set (y # ks) \<or> fixedAt edges m k)"
    then have "k \<in> set ks \<or> fixedAt edges m1 k"
      using y keep [of k] by auto
    with a IH(2) [of k] show "fixedAt edges (fst (foldl (visit edges) (m, c) (y # ks))) k"
      by (simp add: v)
  qed
qed

lemma pass_fixes_next_rank:
  assumes rank: "\<forall>e\<in>set edges. rk (source e) < rk (target e)"
    and "keyed m" and "\<forall>k. rk k \<le> j \<longrightarrow> fixedAt edges m k"
  shows "keyed (fst (pass edges m)) \<and> (\<forall>k. rk k \<le> Suc j \<longrightarrow> fixedAt edges (fst (pass edges m)) k)"
proof (intro conjI allI impI)
  note F = foldl_visit_fixed [OF assms, of False "map fst m"]
  from F show "keyed (fst (pass edges m))" by (simp add: pass_def)
  fix k assume k: "rk k \<le> Suc j"
  show "fixedAt edges (fst (pass edges m)) k"
  proof (cases "k \<in> set (map fst m)")
    case True
    with F k show ?thesis by (simp add: pass_def)
  next
    case False
    then have "k \<notin> set (map fst (fst (pass edges m)))" by (simp add: pass_keys)
    then have "map_of (fst (pass edges m)) k = None"
      by (simp add: map_of_eq_None_iff)
    then show ?thesis by (simp add: fixedAt_def)
  qed
qed

subsection \<open>Passes over a map that is fixed everywhere\<close>






subsection \<open>The loop stops on a pass without change\<close>


lemma keyed_buildNodeMap: "keyed (buildNodeMap nodes)"
  using buildNodeMap_entries [of _ _ nodes] by (auto simp: keyed_def list_all_iff)


subsection \<open>A pass without change\<close>

lemma visit_unchanged:
  assumes "snd (visit edges (m, c) k) = False"
  shows "c = False \<and> fst (visit edges (m, c) k) = m \<and> fixedAt edges m k"
  using assms
  by (auto simp: visit_def fixedAt_def Let_def strict_neq_def strict_eq_def
      split: option.splits if_splits)

lemma foldl_visit_unchanged:
  assumes "snd (foldl (visit edges) (m, c) ks) = False"
  shows "c = False \<and> fst (foldl (visit edges) (m, c) ks) = m \<and> (\<forall>k\<in>set ks. fixedAt edges m k)"
  using assms
proof (induction ks arbitrary: m c)
  case Nil
  then show ?case by simp
next
  case (Cons y ks)
  obtain m1 c1 where v: "visit edges (m, c) y = (m1, c1)" by (cases "visit edges (m, c) y")
  from Cons.prems v have "snd (foldl (visit edges) (m1, c1) ks) = False" by simp
  from Cons.IH [OF this]
  have c1: "c1 = False" and f: "fst (foldl (visit edges) (m1, c1) ks) = m1"
    and ks: "\<forall>k\<in>set ks. fixedAt edges m1 k" by blast+
  from v c1 have "snd (visit edges (m, c) y) = False" by simp
  from visit_unchanged [OF this] v
  have c: "c = False" and m1: "m1 = m" and y: "fixedAt edges m y" by simp_all
  from f v m1 have "fst (foldl (visit edges) (m, c) (y # ks)) = m" by simp
  moreover from ks y m1 have "\<forall>k\<in>set (y # ks). fixedAt edges m k" by simp
  ultimately show ?case using c by blast
qed

lemma pass_unchanged:
  assumes "snd (pass edges m) = False"
  shows "fst (pass edges m) = m \<and> (\<forall>k. fixedAt edges m k)"
proof (intro conjI allI)
  note F = foldl_visit_unchanged [of edges m False "map fst m"]
  from assms F show "fst (pass edges m) = m" by (simp add: pass_def)
  fix k
  show "fixedAt edges m k"
  proof (cases "k \<in> set (map fst m)")
    case True
    with assms F show ?thesis by (auto simp: pass_def)
  next
    case False
    then have "map_of m k = None" by (simp add: map_of_eq_None_iff)
    then show ?thesis by (simp add: fixedAt_def)
  qed
qed

subsection \<open>The map the loop ends with\<close>

lemma loop_ends_fixed:
  fixes rk :: "string \<Rightarrow> nat"
  assumes bound: "\<forall>k. rk k \<le> 50"
    and "\<forall>e\<in>set edges. rk (source e) < rk (target e)"
    and "keyed m" and "\<forall>k. rk k \<le> i \<longrightarrow> fixedAt edges m k"
    and "c \<or> (\<forall>k. fixedAt edges m k)"
  shows "fixedAt edges (fst (loop edges m c i)) k"
  using assms(2-5)
proof (induction edges m c i rule: loop.induct)
  case (1 edges nodeMap changed iterations)
  note rank = "1.prems"(1) and keyed = "1.prems"(2) and stable = "1.prems"(3)
    and inv = "1.prems"(4)
  show ?case
  proof (cases "changed \<and> iterations < 50")
    case True
    obtain m' c' where p: "pass edges nodeMap = (m', c')" by (cases "pass edges nodeMap")
    note step = loop_step [OF True p]
    from pass_fixes_next_rank [OF rank keyed stable] p
    have keyed': "keyed m'" and stable': "\<forall>k. rk k \<le> iterations + 1 \<longrightarrow> fixedAt edges m' k"
      by simp_all
    have inv': "c' \<or> (\<forall>k. fixedAt edges m' k)"
    proof (cases c')
      case True
      then show ?thesis ..
    next
      case False
      with p have "snd (pass edges nodeMap) = False" by simp
      from pass_unchanged [OF this] p show ?thesis by simp
    qed
    from "1.IH" [OF True p [symmetric] rank keyed' stable' inv'] step
    show ?thesis by simp
  next
    case False
    have "fixedAt edges nodeMap k"
    proof (cases changed)
      case True
      with False have "50 \<le> iterations" by simp
      with bound [rule_format, of k] have "rk k \<le> iterations" by simp
      with stable show ?thesis by simp
    next
      case False
      with inv show ?thesis by simp
    qed
    with False show ?thesis by (simp add: loop_stop)
  qed
qed

lemma runLoop_ends_fixed:
  fixes rk :: "string \<Rightarrow> nat"
  assumes "\<forall>e\<in>set edges. rk (source e) < rk (target e)"
    and "\<forall>k. 1 \<le> rk k \<and> rk k \<le> 50"
  shows "fixedAt edges (fst (runLoop nodes edges)) k"
proof -
  from assms(2) have bound: "\<forall>k. rk k \<le> 50" by simp
  have start: "\<forall>k. rk k \<le> 0 \<longrightarrow> fixedAt edges (buildNodeMap nodes) k"
  proof (intro allI impI)
    fix k assume "rk k \<le> 0"
    with assms(2) [rule_format, of k] have False by simp
    then show "fixedAt edges (buildNodeMap nodes) k" ..
  qed
  have "True \<or> (\<forall>k. fixedAt edges (buildNodeMap nodes) k)" by simp
  from loop_ends_fixed [OF bound assms(1) keyed_buildNodeMap start this]
  show ?thesis by (simp add: runLoop_def)
qed

subsection \<open>Paths and ranks\<close>

lemma isPath_snoc:
  assumes "isPath edges p" and "p \<noteq> []"
    and "list_ex (\<lambda>e. source e = last p \<and> target e = x) edges"
  shows "isPath edges (p @ [x])"
  using assms by (induction edges p rule: isPath.induct) simp_all

lemma rank_bounds_path:
  fixes rk :: "string \<Rightarrow> nat"
  assumes "\<forall>e\<in>set edges. rk (source e) < rk (target e)"
    and "isPath edges p" and "p \<noteq> []"
  shows "length p + rk (hd p) \<le> rk (last p) + 1"
  using assms
proof (induction edges p rule: isPath.induct)
  case (1 edges)
  then show ?case by simp
next
  case (2 edges x)
  then show ?case by simp
next
  case (3 edges x y p)
  from "3.prems"(2) obtain e where "e \<in> set edges" "source e = x" "target e = y"
    by (auto simp: list_ex_iff)
  with "3.prems"(1) have "rk x < rk y" by auto
  moreover from "3.IH" "3.prems" have "length (y # p) + rk y \<le> rk (last (y # p)) + 1" by simp
  ultimately show ?case by simp
qed

lemma ranked_paths_bounded:
  fixes rk :: "string \<Rightarrow> nat"
  assumes "\<forall>e\<in>set edges. rk (source e) < rk (target e)"
    and "\<forall>k. 1 \<le> rk k \<and> rk k \<le> L" and "isPath edges p"
  shows "length p \<le> L"
proof (cases "p = []")
  case True
  then show ?thesis by simp
next
  case False
  from rank_bounds_path [OF assms(1,3) False] assms(2) [rule_format, of "hd p"]
    assms(2) [rule_format, of "last p"]
  show ?thesis by linarith
qed

lemma bounded_paths_rank:
  assumes "\<forall>p. isPath edges p \<longrightarrow> length p \<le> L"
  shows "\<exists>rk :: string \<Rightarrow> nat.
           (\<forall>e\<in>set edges. rk (source e) < rk (target e)) \<and> (\<forall>k. 1 \<le> rk k \<and> rk k \<le> L)"
proof -
  define P where "P k = {p. isPath edges p \<and> p \<noteq> [] \<and> last p = k}" for k
  define rk where "rk k = Max (length ` P k)" for k
  have fin: "finite (length ` P k)" for k
  proof (rule finite_subset)
    show "length ` P k \<subseteq> {..L}" using assms by (auto simp: P_def)
  qed simp
  have single: "[k] \<in> P k" for k by (simp add: P_def)
  have ne: "length ` P k \<noteq> {}" for k using single [of k] by blast
  have lower: "1 \<le> rk k" for k
  proof -
    have "length [k] \<in> length ` P k" using single [of k] by (rule imageI)
    from Max_ge [OF fin this] show ?thesis by (simp add: rk_def)
  qed
  have upper: "rk k \<le> L" for k
  proof -
    from Max_in [OF fin ne] have "rk k \<in> length ` P k" by (simp add: rk_def)
    with assms show ?thesis by (auto simp: P_def)
  qed
  have rank: "\<forall>e\<in>set edges. rk (source e) < rk (target e)"
  proof
    fix e assume e: "e \<in> set edges"
    from Max_in [OF fin ne, of "source e"] obtain p where p: "p \<in> P (source e)"
      "length p = rk (source e)" by (auto simp: rk_def)
    from e p(1) have "list_ex (\<lambda>e'. source e' = last p \<and> target e' = target e) edges"
      by (auto simp: list_ex_iff P_def)
    with p(1) have "isPath edges (p @ [target e])" by (simp add: P_def isPath_snoc)
    then have "p @ [target e] \<in> P (target e)" by (simp add: P_def)
    then have "length (p @ [target e]) \<in> length ` P (target e)" by (rule imageI)
    from Max_ge [OF fin this] p(2) show "rk (source e) < rk (target e)" by (simp add: rk_def)
  qed
  from rank lower upper show ?thesis by blast
qed

lemma short_paths_result_fixed:
  assumes "\<forall>p. isPath edges p \<longrightarrow> length p \<le> 50"
    and "node \<in> set (calculateGraph nodes edges)" and "ntype node \<noteq> Some INPUT"
  shows "val (data node) = newValue (fst (runLoop nodes edges)) edges node"
proof -
  let ?m = "fst (runLoop nodes edges)"
  from bounded_paths_rank [OF assms(1)] obtain rk :: "string \<Rightarrow> nat"
    where rk: "\<forall>e\<in>set edges. rk (source e) < rk (target e)" "\<forall>k. 1 \<le> rk k \<and> rk k \<le> 50"
    by blast
  from assms(2) obtain k where k: "(k, node) \<in> set ?m"
    by (auto simp: calculateGraph_def)
  have "distinct (map fst ?m)"
    by (simp add: runLoop_def loop_keys buildNodeMap_distinct)
  with k have "map_of ?m k = Some node" by simp
  with runLoop_ends_fixed [OF rk, of nodes k] assms(3) show ?thesis
    by (simp add: fixedAt_def)
qed




section \<open>Operator semantics in the result\<close>

text \<open>What one turn of the loop assigns to a MATH node whose ports resolve.\<close>

lemma visit_applies_operation:
  assumes "map_of nodeMap k = Some node" and "ntype node = Some MATH"
    and "getSourceValue nodeMap edges (nid node) (Some ''a'') = Some a"
    and "getSourceValue nodeMap edges (nid node) (Some ''b'') = Some b"
  shows "valueAt (fst (visit edges (nodeMap, changed) k)) k =
           applyOperation (operation (data node)) a b"
proof -
  from assms(2) have "ntype node \<noteq> Some INPUT" by simp
  from valueAt_visit [OF assms(1) this] assms(2-4) show ?thesis by (simp add: newValue_def)
qed

text \<open>
  C5 as stated promises the value \<open>NaN\<close> for every divide node of the result whose port
  \<open>b\<close> resolves to \<open>0\<close>. The loop gives up after 50 passes, and a node that was visited
  before its operand reached its last value keeps what it was assigned then: in the graph
  with the counting cycle the loop ends at the ceiling with \<open>c = 0\<close>, and the divide node
  \<open>d\<close>, whose ports resolve to \<open>4\<close> and \<open>0\<close> in the result, holds \<open>4 / (-1) = -4\<close>.
\<close>

theorem ceiling_leaves_stale_quotient_counterexample:
  "(case runLoop counterNodes counterEdges of
      (nodeMap, changed, iterations) \<Rightarrow>
        changed \<and> iterations = 50 \<and>
        map (\<lambda>(k, node). (k, ntype node, operation (data node))) nodeMap =
          [(''p'', Some INPUT, None), (''u'', Some INPUT, None),
           (''d'', Some MATH, Some Divide), (''c'', Some MATH, Some Add)] \<and>
        getSourceValue nodeMap counterEdges ''d'' (Some ''a'') = Some (Fin 4) \<and>
        getSourceValue nodeMap counterEdges ''d'' (Some ''b'') = Some (Fin 0) \<and>
        valueAt nodeMap ''d'' = Some (Fin (- 4))) \<and>
   map (val \<circ> data) (calculateGraph counterNodes counterEdges) =
     [None, None, Some (Fin (- 4)), Some (Fin 0)]"
  by code_simp

text \<open>
  C5, amended: when every directed path of the graph has at most 50 nodes, so that the 50
  passes carry every value to the end of every path, a MATH node of the result whose
  ports \<open>a\<close> and \<open>b\<close> resolve, in the result, to the numbers \<open>a\<close> and \<open>b\<close> holds \<open>NaN\<close> if
  its operation is divide and \<open>b\<close> is \<open>0\<close> (no error is raised: the evaluator is a total
  function, as the source has no failing branch); an add node one of whose operands is
  \<open>NaN\<close> holds \<open>NaN\<close>, whatever the other operand is; a divide node with a nonzero \<open>b\<close>
  holds the quotient, which for finite operands is the exact quotient rounded to
  binary64.
\<close>

theorem divide_by_zero_taints:
  assumes "\<forall>p. isPath edges p \<longrightarrow> length p \<le> 50"
    and "node \<in> set (calculateGraph nodes edges)" and "ntype node = Some MATH"
    and "getSourceValue (fst (runLoop nodes edges)) edges (nid node) (Some ''a'') = Some a"
    and "getSourceValue (fst (runLoop nodes edges)) edges (nid node) (Some ''b'') = Some b"
  shows "(operation (data node) = Some Divide \<and> b = Fin 0 \<longrightarrow> val (data node) = Some NaN) \<and>
         (operation (data node) = Some Add \<and> (a = NaN \<or> b = NaN) \<longrightarrow>
            val (data node) = Some NaN) \<and>
         (operation (data node) = Some Divide \<and> b \<noteq> Fin 0 \<longrightarrow>
            val (data node) = Some (jsdiv a b)) \<and>
         (\<forall>x y. operation (data node) = Some Divide \<and> a = Fin x \<and> b = Fin y \<and> y \<noteq> 0 \<longrightarrow>
            val (data node) = Some (round64 (x / y)))"
proof -
  from assms(3) have "ntype node \<noteq> Some INPUT" by simp
  from short_paths_result_fixed [OF assms(1,2) this] assms(3-5)
  have "val (data node) = applyOperation (operation (data node)) a b"
    by (simp add: newValue_def)
  then show ?thesis
    by (auto simp: applyOperation_def jsadd_NaN_right)
qed

theorem divide_by_zero_taints_witness:
  "map (ntype) (calculateGraph taintNodes taintEdges) =
     [Some INPUT, Some INPUT, Some INPUT, Some MATH, Some MATH, Some MATH] \<and>
   val (data (calculateGraph taintNodes taintEdges ! 3)) = Some NaN \<and>
   val (data (calculateGraph taintNodes taintEdges ! 4)) = Some NaN \<and>
   val (data (calculateGraph taintNodes taintEdges ! 5)) =
     Some (Fin (6004799503160661 / 4503599627370496))"
proof -
  let ?r = "calculateGraph taintNodes taintEdges"
  have r: "\<forall>e\<in>set taintEdges. taintRank (source e) < taintRank (target e)" by code_simp
  have b: "\<forall>k. 1 \<le> taintRank k \<and> taintRank k \<le> 50" by (simp add: taintRank_def)
  have paths: "\<forall>p. isPath taintEdges p \<longrightarrow> length p \<le> 50"
    using ranked_paths_bounded [OF r b] by blast
  have len: "length ?r = 6" by code_simp
  have types: "map (ntype) ?r = [Some INPUT, Some INPUT, Some INPUT, Some MATH, Some MATH, Some MATH]"
    by code_simp
  have d: "?r ! 3 \<in> set ?r" "ntype (?r ! 3) = Some MATH"
    "getSourceValue (fst (runLoop taintNodes taintEdges)) taintEdges (nid (?r ! 3)) (Some ''a'') = Some (Fin 4)"
    "getSourceValue (fst (runLoop taintNodes taintEdges)) taintEdges (nid (?r ! 3)) (Some ''b'') = Some (Fin 0)"
    "operation (data (?r ! 3)) = Some Divide"
    by (simp add: len) code_simp+
  have 1: "val (data (?r ! 3)) = Some NaN"
    using divide_by_zero_taints [OF paths d(1-4)] d(5) by simp
  have s: "?r ! 4 \<in> set ?r" "ntype (?r ! 4) = Some MATH"
    "getSourceValue (fst (runLoop taintNodes taintEdges)) taintEdges (nid (?r ! 4)) (Some ''a'') = Some NaN"
    "getSourceValue (fst (runLoop taintNodes taintEdges)) taintEdges (nid (?r ! 4)) (Some ''b'') = Some (Fin 3)"
    "operation (data (?r ! 4)) = Some Add"
    by (simp add: len) code_simp+
  have 2: "val (data (?r ! 4)) = Some NaN"
    using divide_by_zero_taints [OF paths s(1-4)] s(5) by simp
  have t: "?r ! 5 \<in> set ?r" "ntype (?r ! 5) = Some MATH"
    "getSourceValue (fst (runLoop taintNodes taintEdges)) taintEdges (nid (?r ! 5)) (Some ''a'') = Some (Fin 4)"
    "getSourceValue (fst (runLoop taintNodes taintEdges)) taintEdges (nid (?r ! 5)) (Some ''b'') = Some (Fin 3)"
    "operation (data (?r ! 5)) = Some Divide"
    by (simp add: len) code_simp+
  have q: "round64 (4 / 3) = Fin (6004799503160661 / 4503599627370496)" by code_simp
  have 3: "val (data (?r ! 5)) = Some (Fin (6004799503160661 / 4503599627370496))"
    using divide_by_zero_taints [OF paths t(1-4)] t(5) q by simp
  from types 1 2 3 show ?thesis by (intro conjI)
qed

end
